theory Spec2Isabelle
  imports Main "HOL-Library.Stream"
begin

section \<open>The environment of main.py\<close>

text \<open>
  A path is the list of its components, so that \<open>os.path.join(d, name)\<close> is \<open>d @ [name]\<close>.
  The empty list stands for the empty string, which names nothing on disk. File contents
  are byte strings. A node carries the time of its last modification in nanoseconds
  (\<open>st_mtime_ns\<close>); what \<open>stat()[FILE_MTIME_INDEX]\<close> reads is the field of whole seconds of
  that time. The size of a file is the integer that \<open>stat()[FILE_SIZE_INDEX]\<close> reads.
\<close>

type_synonym path = "string list"
type_synonym bytes = string

datatype node = File bytes int | Dir nat int

definition seconds :: "int \<Rightarrow> int" where
  "seconds ns = ns div 1000000000"

text \<open>
  The file system lists every node with its full path, in the order in which the operating
  system enumerates it; \<open>os.scandir\<close> yields the children of a directory in that order.
\<close>

type_synonym fs = "(path \<times> node) list"

datatype error =
    FileNotFoundError path
  | IsADirectoryError path
  | NotADirectoryError path

record stat_result =
  st_size :: nat
  st_mtime :: int

datatype kind = Regular | Directory

record DirEntry =
  path :: path
  kind :: kind

definition lookup :: "fs \<Rightarrow> path \<Rightarrow> node option" where
  "lookup fs p = (if p = [] then None else map_of fs p)"

definition isfile :: "fs \<Rightarrow> path \<Rightarrow> bool" where
  "isfile fs p = (case lookup fs p of Some (File c m) \<Rightarrow> True | _ \<Rightarrow> False)"

definition isdir :: "fs \<Rightarrow> path \<Rightarrow> bool" where
  "isdir fs p = (case lookup fs p of Some (Dir s m) \<Rightarrow> True | _ \<Rightarrow> False)"

definition exists :: "fs \<Rightarrow> path \<Rightarrow> bool" where
  "exists fs p = (lookup fs p \<noteq> None)"

definition stat :: "fs \<Rightarrow> path \<Rightarrow> error + stat_result" where
  "stat fs p =
     (case lookup fs p of
        None \<Rightarrow> Inl (FileNotFoundError p)
      | Some (File c m) \<Rightarrow> Inr \<lparr>st_size = length c, st_mtime = seconds m\<rparr>
      | Some (Dir s m) \<Rightarrow> Inr \<lparr>st_size = s, st_mtime = seconds m\<rparr>)"

definition read_file :: "fs \<Rightarrow> path \<Rightarrow> error + bytes" where
  "read_file fs p =
     (case lookup fs p of
        None \<Rightarrow> Inl (FileNotFoundError p)
      | Some (File c m) \<Rightarrow> Inr c
      | Some (Dir s m) \<Rightarrow> Inl (IsADirectoryError p))"

definition os_remove :: "fs \<Rightarrow> path \<Rightarrow> error + fs" where
  "os_remove fs p =
     (case lookup fs p of
        None \<Rightarrow> Inl (FileNotFoundError p)
      | Some (File c m) \<Rightarrow> Inr (filter (\<lambda>(q, n). q \<noteq> p) fs)
      | Some (Dir s m) \<Rightarrow> Inl (IsADirectoryError p))"

definition entry_of :: "path \<times> node \<Rightarrow> DirEntry" where
  "entry_of pn =
     \<lparr>path = fst pn, kind = (case snd pn of File c m \<Rightarrow> Regular | Dir s m \<Rightarrow> Directory)\<rparr>"

definition is_file :: "DirEntry \<Rightarrow> bool" where
  "is_file e = (kind e = Regular)"

definition is_dir :: "DirEntry \<Rightarrow> bool" where
  "is_dir e = (kind e = Directory)"

definition scandir :: "fs \<Rightarrow> path \<Rightarrow> error + DirEntry list" where
  "scandir fs d =
     (case lookup fs d of
        None \<Rightarrow> Inl (FileNotFoundError d)
      | Some (File c m) \<Rightarrow> Inl (NotADirectoryError d)
      | Some (Dir s m) \<Rightarrow>
          Inr (map entry_of (filter (\<lambda>(p, n). p \<noteq> [] \<and> butlast p = d) fs)))"

text \<open>
  The object that \<open>os.scandir\<close> returns is an iterator whose type defines neither
  \<open>__bool__\<close> nor \<open>__len__\<close>: Python takes it for true whatever it is going to yield.
\<close>

definition truth_value :: "DirEntry list \<Rightarrow> bool" where
  "truth_value it = True"

text \<open>
  Modelled from the spec: \<open>utils.progressBar\<close> is imported by main.py and is not among the
  sources. The spec has it produce the elements of the wrapped sequence unchanged, its
  rendering having no effect on classification or deletion.
\<close>

definition progressBar :: "'a list \<Rightarrow> 'a list" where
  "progressBar xs = xs"

text \<open>What the program prints, one constructor for each message of main.py.\<close>

datatype msg =
    NO_DUPLICATES_MSG
  | INVALID_FILES_DETECTED_MSG
  | REMOVING_INVALID_FILES_MSG
  | REMOVING_DUPLICATE_FILES_MSG
  | GETTING_FILES_MSG path
  | CANCELLED_BY_USER_MSG path
  | DELETE_CONFIRMATION_MSG path
  | SUCCESSFULLY_REMOVED_MSG path
  | DIRECTORY_IS_EMPTY_MSG path
  | ERROR_PATH_NOT_FOUND_MSG path
  | INVALID_DIRECTORY_MSG path
  | EMPTY_DIRECTORY_MSG
  | PRINT_PATH path
  | OPERATION_COMPLETED

section \<open>Helper functions\<close>

fun traverse :: "('a \<Rightarrow> 'e + 'b) \<Rightarrow> 'a list \<Rightarrow> 'e + 'b list" where
  "traverse f [] = Inr []"
| "traverse f (x # xs) =
     (case f x of
        Inl e \<Rightarrow> Inl e
      | Inr y \<Rightarrow> (case traverse f xs of Inl e \<Rightarrow> Inl e | Inr ys \<Rightarrow> Inr (y # ys)))"

definition valid_file :: "fs \<Rightarrow> DirEntry \<Rightarrow> error + bool" where
  "valid_file fs file_entry =
     (case stat fs (path file_entry) of Inl e \<Rightarrow> Inl e | Inr s \<Rightarrow> Inr (st_size s > 0))"

text \<open>\<open>hashlib.md5(...).hexdigest()\<close> is a parameter of the model.\<close>

definition get_hash :: "(bytes \<Rightarrow> 'h) \<Rightarrow> fs \<Rightarrow> path \<Rightarrow> error + 'h" where
  "get_hash md5 fs filepath =
     (case read_file fs filepath of Inl e \<Rightarrow> Inl e | Inr c \<Rightarrow> Inr (md5 c))"

section \<open>The classifier\<close>

text \<open>
  \<open>hash_dict[k].append(v)\<close> on a \<open>defaultdict(list)\<close>: dictionaries keep their keys in the
  order of first insertion.
\<close>

fun dict_append :: "('k \<times> 'v list) list \<Rightarrow> 'k \<Rightarrow> 'v \<Rightarrow> ('k \<times> 'v list) list" where
  "dict_append [] k v = [(k, [v])]"
| "dict_append ((k', vs) # d) k v =
     (if k' = k then (k', vs @ [v]) # d else (k', vs) # dict_append d k v)"

definition mtime_key :: "fs \<Rightarrow> DirEntry \<Rightarrow> error + int" where
  "mtime_key fs entry =
     (case stat fs (path entry) of Inl e \<Rightarrow> Inl e | Inr s \<Rightarrow> Inr (st_mtime s))"

definition get_duplicates ::
  "(bytes \<Rightarrow> 'h) \<Rightarrow> fs \<Rightarrow> DirEntry list \<Rightarrow> error + (path list \<times> path list list)" where
  "get_duplicates md5 fs file_entries =
     (case traverse (mtime_key fs) file_entries of
        Inl e \<Rightarrow> Inl e
      | Inr keys \<Rightarrow>
          let sorted_entries = map snd (sort_key fst (zip keys file_entries)) in
          (case traverse (valid_file fs) (progressBar sorted_entries) of
             Inl e \<Rightarrow> Inl e
           | Inr valid \<Rightarrow>
               let invalid_files =
                     map (path \<circ> fst) (filter (\<lambda>(entry, v). \<not> v) (zip sorted_entries valid)) in
               (case traverse (\<lambda>entry. get_hash md5 fs (path entry))
                       (progressBar sorted_entries) of
                  Inl e \<Rightarrow> Inl e
                | Inr hashes \<Rightarrow>
                    let hash_dict =
                          foldl (\<lambda>d (h, entry). dict_append d h (path entry)) []
                            (zip hashes sorted_entries);
                        duplicate_files =
                          filter (\<lambda>files. length files > 1) (progressBar (map snd hash_dict))
                    in Inr (invalid_files, duplicate_files))))"

section \<open>The terminal and the deletion executor\<close>

text \<open>
  The state the program acts on: the file system, the lines still to be read from the
  terminal and what has been printed so far. \<open>input\<close> blocks until there is a line, so the
  terminal is an infinite stream of lines; a terminal that is closed (\<open>EOFError\<close>) is not
  modelled.
\<close>

record world =
  files :: fs
  stdin :: "string stream"
  stdout :: "msg list"

definition print :: "msg \<Rightarrow> world \<Rightarrow> world" where
  "print m w = w\<lparr>stdout := stdout w @ [m]\<rparr>"

definition prints :: "msg list \<Rightarrow> world \<Rightarrow> world" where
  "prints ms w = w\<lparr>stdout := stdout w @ ms\<rparr>"

definition input :: "msg \<Rightarrow> world \<Rightarrow> string \<times> world" where
  "input prompt w = (shd (stdin w), w\<lparr>stdin := stl (stdin w), stdout := stdout w @ [prompt]\<rparr>)"

text \<open>
  The loop \<open>while res not in ['y', 'n']: res = input(...)\<close> of lines 171-173 and 197-199.
  It may run forever: not returning is the value \<open>None\<close>.
\<close>

partial_function (option) reply_loop :: "path \<Rightarrow> string \<Rightarrow> world \<Rightarrow> (string \<times> world) option" where
  "reply_loop file_path res w =
     (if res \<notin> set [''y'', ''n'']
      then reply_loop file_path
             (fst (input (DELETE_CONFIRMATION_MSG file_path) w))
             (snd (input (DELETE_CONFIRMATION_MSG file_path) w))
      else Some (res, w))"

declare reply_loop.simps [code]

text \<open>\<open>os.remove(file_path)\<close> followed by the message of success; the exception is not caught.\<close>

definition remove_file :: "world \<Rightarrow> path \<Rightarrow> error \<times> world + world" where
  "remove_file w file_path =
     (case os_remove (files w) file_path of
        Inl e \<Rightarrow> Inl (e, w)
      | Inr fs' \<Rightarrow> Inr (print (SUCCESSFULLY_REMOVED_MSG file_path) (w\<lparr>files := fs'\<rparr>)))"

text \<open>
  The body of the loop over the deletion candidates, lines 168-183 of
  \<open>remove_duplicates_files\<close> and, letter for letter, lines 194-209 of \<open>remove_invalid_files\<close>.
\<close>

definition delete_candidate :: "world \<Rightarrow> path \<Rightarrow> bool \<Rightarrow> (error \<times> world + world) option" where
  "delete_candidate w file_path prompt_flag =
     (if prompt_flag then
        (case input (DELETE_CONFIRMATION_MSG file_path) w of
           (res, w1) \<Rightarrow>
             (case reply_loop file_path res w1 of
                None \<Rightarrow> None
              | Some (res', w2) \<Rightarrow>
                  if res' = ''y'' then Some (remove_file w2 file_path)
                  else Some (Inr (print (CANCELLED_BY_USER_MSG file_path) w2))))
      else Some (remove_file w file_path))"

fun delete_each :: "world \<Rightarrow> path list \<Rightarrow> bool \<Rightarrow> (error \<times> world + world) option" where
  "delete_each w [] prompt_flag = Some (Inr w)"
| "delete_each w (file_path # rest) prompt_flag =
     (case delete_candidate w file_path prompt_flag of
        None \<Rightarrow> None
      | Some (Inl x) \<Rightarrow> Some (Inl x)
      | Some (Inr w') \<Rightarrow> delete_each w' rest prompt_flag)"

text \<open>The outer loop of \<open>remove_duplicates_files\<close>; \<open>duplicates[1:]\<close> is \<open>tl duplicates\<close>.\<close>

fun delete_groups :: "world \<Rightarrow> path list list \<Rightarrow> bool \<Rightarrow> (error \<times> world + world) option" where
  "delete_groups w [] prompt_flag = Some (Inr w)"
| "delete_groups w (duplicates # rest) prompt_flag =
     (case delete_each w (tl duplicates) prompt_flag of
        None \<Rightarrow> None
      | Some (Inl x) \<Rightarrow> Some (Inl x)
      | Some (Inr w') \<Rightarrow> delete_groups w' rest prompt_flag)"

definition remove_duplicates_files ::
  "world \<Rightarrow> path list list \<Rightarrow> bool \<Rightarrow> (error \<times> world + world) option" where
  "remove_duplicates_files w duplicate_files prompt_flag =
     delete_groups w (progressBar duplicate_files) prompt_flag"

definition remove_invalid_files ::
  "world \<Rightarrow> path list \<Rightarrow> bool \<Rightarrow> (error \<times> world + world) option" where
  "remove_invalid_files w invalid_files prompt_flag =
     delete_each w (progressBar invalid_files) prompt_flag"

section \<open>Validation of the arguments and the walker\<close>

definition valid_arguments :: "fs \<Rightarrow> path \<Rightarrow> bool \<times> msg list" where
  "valid_arguments fs directory =
     (if directory = [] then (False, [EMPTY_DIRECTORY_MSG])
      else if \<not> isdir fs directory then (False, [INVALID_DIRECTORY_MSG directory])
      else if \<not> exists fs directory then (False, [ERROR_PATH_NOT_FOUND_MSG directory])
      else (True, []))"

fun collect :: "(error + DirEntry list \<times> msg list) list \<Rightarrow> error + DirEntry list \<times> msg list" where
  "collect [] = Inr ([], [])"
| "collect (r # rs) =
     (case r of
        Inl e \<Rightarrow> Inl e
      | Inr (es, out) \<Rightarrow>
          (case collect rs of Inl e \<Rightarrow> Inl e | Inr (es', out') \<Rightarrow> Inr (es @ es', out @ out')))"

definition depth :: "fs \<Rightarrow> nat" where
  "depth fs = Max (insert 0 (length ` fst ` set fs))"

text \<open>
  \<open>get_files\<close> returns the entries and what it printed. Its first argument is the global
  \<open>directory\<close> of the script, which the notice of line 115 prints.
\<close>

function get_files :: "path \<Rightarrow> fs \<Rightarrow> path \<Rightarrow> bool \<Rightarrow> error + DirEntry list \<times> msg list" where
  "get_files directory fs dir recursive =
     (case scandir fs dir of
        Inl e \<Rightarrow> Inl e
      | Inr dir_entry \<Rightarrow>
          (case collect (map (\<lambda>entry.
                    if is_file entry then Inr ([entry], [])
                    else if is_dir entry \<and> recursive
                      then get_files directory fs (path entry) recursive
                    else Inr ([], [])) dir_entry) of
             Inl e \<Rightarrow> Inl e
           | Inr (file_entries, out) \<Rightarrow>
               Inr (file_entries,
                    [GETTING_FILES_MSG dir]
                      @ (if \<not> truth_value dir_entry then [DIRECTORY_IS_EMPTY_MSG directory] else [])
                      @ out)))"
  by pat_completeness auto
termination
proof (relation "measure (\<lambda>(directory, fs, dir, recursive). Suc (depth fs) - length dir)")
  show "wf (measure (\<lambda>(directory, fs, dir, recursive). Suc (depth fs) - length dir))"
    by simp
next
  fix directory :: path and fs :: fs and dir :: path and recursive :: bool
    and dir_entry :: "DirEntry list" and entry :: DirEntry
  assume scan: "scandir fs dir = Inr dir_entry" and mem: "entry \<in> set dir_entry"
  from scan
  have "dir_entry = map entry_of (filter (\<lambda>(p, n). p \<noteq> [] \<and> butlast p = dir) fs)"
    by (simp add: scandir_def split: option.splits node.splits)
  with mem obtain p n where pn: "(p, n) \<in> set fs" and p: "p \<noteq> []" "butlast p = dir"
    and e: "entry = entry_of (p, n)"
    by auto
  from p have len: "length p = Suc (length dir)"
    by (cases p rule: rev_cases) auto
  have "length p \<le> depth fs"
    unfolding depth_def by (rule Max_ge) (use pn in force)+
  with len e show "((directory, fs, path entry, recursive), (directory, fs, dir, recursive))
      \<in> measure (\<lambda>(directory, fs, dir, recursive). Suc (depth fs) - length dir)"
    by (simp add: entry_of_def)
qed

declare get_files.simps [simp del]

section \<open>The script\<close>

datatype exit_status = Exit nat | Uncaught error

text \<open>
  The block under \<open>if __name__ == '__main__'\<close>, from the parsed arguments on. A run that
  reaches the last line exits with status 0; an exception nobody catches ends it.
\<close>

definition main ::
  "(bytes \<Rightarrow> 'h) \<Rightarrow> world \<Rightarrow> path \<Rightarrow> bool \<Rightarrow> bool \<Rightarrow> bool \<Rightarrow> (exit_status \<times> world) option" where
  "main md5 w directory recursive_flag prompt_flag remove_invalid_file_flag =
     (let (ok, out) = valid_arguments (files w) directory; w0 = prints out w in
      if \<not> ok then Some (Exit 1, w0)
      else
        (case get_files directory (files w0) directory recursive_flag of
           Inl e \<Rightarrow> Some (Uncaught e, w0)
         | Inr (file_entries, out1) \<Rightarrow>
             let w1 = prints out1 w0 in
             (case get_duplicates md5 (files w1) file_entries of
                Inl e \<Rightarrow> Some (Uncaught e, w1)
              | Inr (invalid_files, duplicate_files) \<Rightarrow>
                  (case (if duplicate_files \<noteq> []
                         then remove_duplicates_files (print REMOVING_DUPLICATE_FILES_MSG w1)
                                duplicate_files prompt_flag
                         else Some (Inr (print NO_DUPLICATES_MSG w1))) of
                     None \<Rightarrow> None
                   | Some (Inl (e, w2)) \<Rightarrow> Some (Uncaught e, w2)
                   | Some (Inr w2) \<Rightarrow>
                       (case (if remove_invalid_file_flag
                              then remove_invalid_files (print REMOVING_INVALID_FILES_MSG w2)
                                     invalid_files prompt_flag
                              else if invalid_files \<noteq> []
                                then Some (Inr (prints (INVALID_FILES_DETECTED_MSG
                                                 # map PRINT_PATH invalid_files) w2))
                              else Some (Inr w2)) of
                          None \<Rightarrow> None
                        | Some (Inl (e, w3)) \<Rightarrow> Some (Uncaught e, w3)
                        | Some (Inr w3) \<Rightarrow> Some (Exit 0, print OPERATION_COMPLETED w3))))))"

section \<open>Notions used in the statements\<close>

text \<open>
  The content of the regular file at a path, the time of its last modification (in
  nanoseconds) and the whole seconds of that time, which is what the classifier sorts by.
\<close>

definition file_content :: "fs \<Rightarrow> path \<Rightarrow> bytes" where
  "file_content fs p = (case lookup fs p of Some (File c m) \<Rightarrow> c | _ \<Rightarrow> [])"

definition file_mtime :: "fs \<Rightarrow> path \<Rightarrow> int" where
  "file_mtime fs p = (case lookup fs p of Some (File c m) \<Rightarrow> m | _ \<Rightarrow> 0)"

definition file_seconds :: "fs \<Rightarrow> path \<Rightarrow> int" where
  "file_seconds fs p = seconds (file_mtime fs p)"

definition group_of :: "'k \<Rightarrow> ('k \<times> DirEntry) list \<Rightarrow> path list" where
  "group_of k xs = map (path \<circ> snd) (filter (\<lambda>x. fst x = k) xs)"

definition values_at :: "('k \<times> 'v list) list \<Rightarrow> 'k \<Rightarrow> 'v list" where
  "values_at d k = (case map_of d k of None \<Rightarrow> [] | Some vs \<Rightarrow> vs)"

definition dict_ok :: "('k \<times> 'v list) list \<Rightarrow> bool" where
  "dict_ok d = (distinct (map fst d) \<and> (\<forall>x\<in>set d. snd x \<noteq> []))"

definition build :: "('k \<times> path list) list \<Rightarrow> ('k \<times> DirEntry) list \<Rightarrow> ('k \<times> path list) list" where
  "build d xs = foldl (\<lambda>d (h, entry). dict_append d h (path entry)) d xs"

definition by_mtime :: "fs \<Rightarrow> DirEntry list \<Rightarrow> DirEntry list" where
  "by_mtime fs es = sort_key (\<lambda>e. file_seconds fs (path e)) es"

definition hashed :: "(bytes \<Rightarrow> 'h) \<Rightarrow> fs \<Rightarrow> DirEntry list \<Rightarrow> ('h \<times> DirEntry) list" where
  "hashed md5 fs es = map (\<lambda>e. (md5 (file_content fs (path e)), e)) (by_mtime fs es)"

definition groups_of :: "(bytes \<Rightarrow> 'h) \<Rightarrow> fs \<Rightarrow> DirEntry list \<Rightarrow> path list list" where
  "groups_of md5 fs es = filter (\<lambda>g. length g > 1) (map snd (build [] (hashed md5 fs es)))"

text \<open>
  The scenario of the spec: a directory with two files of the same content, a third file of
  another content and an empty file.
\<close>

definition example_fs :: fs where
  "example_fs =
     [([''d''], Dir 4096 0),
      ([''d'', ''a.txt''], File ''hi'' 1000000000),
      ([''d'', ''b.txt''], File ''hi'' 2000000000),
      ([''d'', ''c.txt''], File ''bye'' 3000000000),
      ([''d'', ''empty.bin''], File [] 4000000000)]"

definition example_entries :: "DirEntry list" where
  "example_entries =
     [\<lparr>path = [''d'', ''a.txt''], kind = Regular\<rparr>,
      \<lparr>path = [''d'', ''b.txt''], kind = Regular\<rparr>,
      \<lparr>path = [''d'', ''c.txt''], kind = Regular\<rparr>,
      \<lparr>path = [''d'', ''empty.bin''], kind = Regular\<rparr>]"



text \<open>A directory with two empty files.\<close>

definition empties_fs :: fs where
  "empties_fs =
     [([''d''], Dir 4096 0),
      ([''d'', ''e1''], File [] 5000000000),
      ([''d'', ''a.txt''], File ''hi'' 1000000000),
      ([''d'', ''e2''], File [] 2000000000)]"

definition empties_entries :: "DirEntry list" where
  "empties_entries =
     [\<lparr>path = [''d'', ''e1''], kind = Regular\<rparr>,
      \<lparr>path = [''d'', ''a.txt''], kind = Regular\<rparr>,
      \<lparr>path = [''d'', ''e2''], kind = Regular\<rparr>]"

text \<open>
  The file system without the paths of a list, and the state after the files of a list have
  been deleted and reported one after the other.
\<close>

definition removed :: "path list \<Rightarrow> fs \<Rightarrow> fs" where
  "removed ps fs = filter (\<lambda>(q, n). q \<notin> set ps) fs"

definition deleted :: "path list \<Rightarrow> world \<Rightarrow> world" where
  "deleted ps w =
     w\<lparr>files := removed ps (files w), stdout := stdout w @ map SUCCESSFULLY_REMOVED_MSG ps\<rparr>"

text \<open>The scenario of the spec as a state, with its one duplicate group.\<close>

definition example_world :: world where
  "example_world = \<lparr>files = example_fs, stdin = sconst ''n'', stdout = []\<rparr>"

definition example_groups :: "path list list" where
  "example_groups = [[[''d'', ''a.txt''], [''d'', ''b.txt'']]]"

text \<open>
  A group one of whose candidates is no longer on disk when the executor reaches it.
\<close>

definition vanished_world :: world where
  "vanished_world =
     \<lparr>files =
        [([''d''], Dir 4096 0),
         ([''d'', ''a.txt''], File ''hi'' 1000000000),
         ([''d'', ''b.txt''], File ''hi'' 2000000000),
         ([''d'', ''c.txt''], File ''hi'' 4000000000)],
      stdin = sconst ''n'', stdout = []\<rparr>"

definition vanished_groups :: "path list list" where
  "vanished_groups = [[[''d'', ''a.txt''], [''d'', ''b.txt''], [''d'', ''v.txt''], [''d'', ''c.txt'']]]"

text \<open>
  The replies the loop accepts; the state after \<open>n\<close> prompts for a path, each having read one
  line; and the state after every candidate of a list has been asked about once and refused.
\<close>

definition valid_reply :: "string \<Rightarrow> bool" where
  "valid_reply res = (res \<in> set [''y'', ''n''])"

definition asked :: "nat \<Rightarrow> path \<Rightarrow> world \<Rightarrow> world" where
  "asked n p w =
     w\<lparr>stdin := sdrop n (stdin w),
       stdout := stdout w @ replicate n (DELETE_CONFIRMATION_MSG p)\<rparr>"

definition refused :: "path list \<Rightarrow> world \<Rightarrow> world" where
  "refused ps w =
     w\<lparr>stdout := stdout w
         @ concat (map (\<lambda>p. [DELETE_CONFIRMATION_MSG p, CANCELLED_BY_USER_MSG p]) ps)\<rparr>"

text \<open>A terminal whose first two lines are no reply, the third being the affirmative one.\<close>

definition prompt_world :: world where
  "prompt_world =
     \<lparr>files = example_fs, stdin = ''x'' ## ''yes'' ## ''y'' ## sconst ''n'', stdout = []\<rparr>"

text \<open>A root directory without children.\<close>

definition empty_dir_fs :: fs where
  "empty_dir_fs = [([''d''], Dir 4096 0)]"

definition empty_dir_world :: world where
  "empty_dir_world = \<lparr>files = empty_dir_fs, stdin = sconst ''n'', stdout = []\<rparr>"

text \<open>
  The entries whose paths are not in a list, one step of the loop of \<open>get_files\<close> as a function
  of the entry, and the state in which the run of the script on the scenario of the spec ends.
\<close>

definition kept :: "path list \<Rightarrow> DirEntry list \<Rightarrow> DirEntry list" where
  "kept D es = filter (\<lambda>e. path e \<notin> set D) es"

definition visit :: "path \<Rightarrow> fs \<Rightarrow> bool \<Rightarrow> DirEntry \<Rightarrow> error + DirEntry list \<times> msg list" where
  "visit directory fs recursive entry =
     (if is_file entry then Inr ([entry], [])
      else if is_dir entry \<and> recursive then get_files directory fs (path entry) recursive
      else Inr ([], []))"

definition cleaned_world :: world where
  "cleaned_world =
     \<lparr>files =
        [([''d''], Dir 4096 0),
         ([''d'', ''a.txt''], File ''hi'' 1000000000),
         ([''d'', ''c.txt''], File ''bye'' 3000000000)],
      stdin = sconst ''n'',
      stdout =
        [GETTING_FILES_MSG [''d''],
         REMOVING_DUPLICATE_FILES_MSG,
         SUCCESSFULLY_REMOVED_MSG [''d'', ''b.txt''],
         REMOVING_INVALID_FILES_MSG,
         SUCCESSFULLY_REMOVED_MSG [''d'', ''empty.bin''],
         OPERATION_COMPLETED]\<rparr>"

text \<open>The directory with two empty files as a state.\<close>

definition empties_world :: world where
  "empties_world = \<lparr>files = empties_fs, stdin = sconst ''n'', stdout = []\<rparr>"

text \<open>
  The same with a terminal that confirms every deletion, and the state it is in once the
  first candidate has been confirmed and removed.
\<close>

definition vanished_prompt_world :: world where
  "vanished_prompt_world =
     \<lparr>files =
        [([''d''], Dir 4096 0),
         ([''d'', ''a.txt''], File ''hi'' 1000000000),
         ([''d'', ''b.txt''], File ''hi'' 2000000000),
         ([''d'', ''c.txt''], File ''hi'' 4000000000)],
      stdin = sconst ''y'', stdout = []\<rparr>"

definition vanished_prompt_after :: world where
  "vanished_prompt_after =
     \<lparr>files =
        [([''d''], Dir 4096 0),
         ([''d'', ''a.txt''], File ''hi'' 1000000000),
         ([''d'', ''c.txt''], File ''hi'' 4000000000)],
      stdin = sconst ''y'',
      stdout = [DELETE_CONFIRMATION_MSG [''d'', ''b.txt''],
                SUCCESSFULLY_REMOVED_MSG [''d'', ''b.txt'']]\<rparr>"

section \<open>The classifier: grouping by content\<close>

lemma traverse_Inr: "\<forall>x\<in>set xs. f x = Inr (g x) \<Longrightarrow> traverse f xs = Inr (map g xs)"
  by (induction xs) auto

lemma isfile_stat:
  "isfile fs p \<Longrightarrow> stat fs p = Inr \<lparr>st_size = length (file_content fs p), st_mtime = file_seconds fs p\<rparr>"
  by (auto simp: isfile_def stat_def file_content_def file_mtime_def file_seconds_def
      split: option.splits node.splits)

lemma isfile_read: "isfile fs p \<Longrightarrow> read_file fs p = Inr (file_content fs p)"
  by (auto simp: isfile_def read_file_def file_content_def split: option.splits node.splits)

lemma insort_decorated:
  "\<forall>y\<in>set ys. fst y = f (snd y) \<Longrightarrow>
   map snd (insort_key fst (f x, x) ys) = insort_key f x (map snd ys)"
  by (induction ys) auto

lemma set_insort_decorated:
  "\<forall>y\<in>set ys. fst y = f (snd y) \<Longrightarrow> \<forall>y\<in>set (insort_key fst (f x, x) ys). fst y = f (snd y)"
  by (induction ys) auto

lemma sort_decorated_aux:
  "(\<forall>y\<in>set (sort_key fst (map (\<lambda>x. (f x, x)) xs)). fst y = f (snd y)) \<and>
   map snd (sort_key fst (map (\<lambda>x. (f x, x)) xs)) = sort_key f xs"
proof (induction xs)
  case Nil
  show ?case by simp
next
  case (Cons x xs)
  then show ?case
    using insort_decorated [of "sort_key fst (map (\<lambda>x. (f x, x)) xs)" f x]
      set_insort_decorated [of "sort_key fst (map (\<lambda>x. (f x, x)) xs)" f x]
    by simp
qed

lemma sort_decorated: "map snd (sort_key fst (zip (map f xs) xs)) = sort_key f xs"
proof -
  have "zip (map f xs) xs = map (\<lambda>x. (f x, x)) xs"
    by (induction xs) auto
  then show ?thesis using sort_decorated_aux [of f xs] by simp
qed

lemma dict_append_keys: "fst ` set (dict_append d k v) = insert k (fst ` set d)"
  by (induction d k v rule: dict_append.induct) auto

lemma dict_append_ok: "dict_ok d \<Longrightarrow> dict_ok (dict_append d k v)"
proof (induction d k v rule: dict_append.induct)
  case (1 k v)
  show ?case by (simp add: dict_ok_def)
next
  case (2 k' vs d k v)
  then show ?case
    using dict_append_keys [of d k v] by (auto simp: dict_ok_def)
qed

lemma dict_append_values:
  "values_at (dict_append d k v) k' = (if k' = k then values_at d k @ [v] else values_at d k')"
  by (induction d k v rule: dict_append.induct) (auto simp: values_at_def)

lemma build_Nil: "build d [] = d"
  by (simp add: build_def)

lemma build_Cons: "build d ((h, e) # xs) = build (dict_append d h (path e)) xs"
  by (simp add: build_def)

lemma build_ok: "dict_ok d \<Longrightarrow> dict_ok (build d xs)"
  by (induction xs arbitrary: d) (auto simp: dict_append_ok build_Nil build_Cons)

lemma build_keys: "fst ` set (build d xs) = fst ` set d \<union> fst ` set xs"
proof (induction xs arbitrary: d)
  case Nil
  show ?case by (simp add: build_Nil)
next
  case (Cons x xs)
  obtain h e where x: "x = (h, e)" by (cases x)
  have "fst ` set (build (dict_append d h (path e)) xs)
          = insert h (fst ` set d) \<union> fst ` set xs"
    unfolding Cons.IH dict_append_keys ..
  with x show ?case by (simp add: build_Cons)
qed

lemma build_values: "values_at (build d xs) k = values_at d k @ group_of k xs"
  by (induction xs arbitrary: d) (auto simp: dict_append_values group_of_def build_Nil build_Cons)

lemma dict_ok_member:
  assumes "dict_ok d"
  shows "g \<in> snd ` set d \<longleftrightarrow> (\<exists>k\<in>fst ` set d. g = values_at d k)"
proof
  assume "g \<in> snd ` set d"
  then obtain k where kg: "(k, g) \<in> set d" by auto
  with assms have "map_of d k = Some g" by (simp add: dict_ok_def)
  with kg show "\<exists>k\<in>fst ` set d. g = values_at d k"
    by (force simp: values_at_def)
next
  assume "\<exists>k\<in>fst ` set d. g = values_at d k"
  then obtain k where k: "k \<in> fst ` set d" and g: "g = values_at d k" by auto
  from k obtain vs where "map_of d k = Some vs"
    by (metis domD dom_map_of_conv_image_fst)
  with g show "g \<in> snd ` set d"
    by (metis values_at_def option.simps(5) map_of_SomeD snd_conv image_eqI)
qed

lemma build_groups:
  "g \<in> snd ` set (build [] xs) \<longleftrightarrow> (\<exists>k\<in>fst ` set xs. g = group_of k xs)"
proof -
  have ok: "dict_ok (build [] xs)" by (rule build_ok) (simp add: dict_ok_def)
  show ?thesis
    unfolding dict_ok_member [OF ok] build_keys build_values
    by (simp add: values_at_def)
qed


lemma zip_map_self: "zip (map f xs) xs = map (\<lambda>x. (f x, x)) xs"
  by (induction xs) auto

lemma filter_zip_flag:
  "map (path \<circ> fst) (filter (\<lambda>(entry, v). \<not> v) (zip xs (map f xs)))
     = map path (filter (\<lambda>e. \<not> f e) xs)"
  by (induction xs) auto

lemma get_duplicates_files:
  assumes files: "\<forall>e\<in>set es. isfile fs (path e)"
  shows "get_duplicates md5 fs es =
     Inr (map path (filter (\<lambda>e. file_content fs (path e) = []) (by_mtime fs es)),
          groups_of md5 fs es)"
proof -
  have keys: "traverse (mtime_key fs) es = Inr (map (\<lambda>e. file_seconds fs (path e)) es)"
    by (rule traverse_Inr) (use files in \<open>simp add: mtime_key_def isfile_stat\<close>)
  have sorted_files: "\<forall>e\<in>set (by_mtime fs es). isfile fs (path e)"
    using files by (simp add: by_mtime_def)
  have valid: "traverse (valid_file fs) (by_mtime fs es)
      = Inr (map (\<lambda>e. file_content fs (path e) \<noteq> []) (by_mtime fs es))"
    by (rule traverse_Inr) (use sorted_files in \<open>simp add: valid_file_def isfile_stat\<close>)
  have hashes: "traverse (\<lambda>entry. get_hash md5 fs (path entry)) (by_mtime fs es)
      = Inr (map (\<lambda>e. md5 (file_content fs (path e))) (by_mtime fs es))"
    by (rule traverse_Inr) (use sorted_files in \<open>simp add: get_hash_def isfile_read\<close>)
  have srt: "map snd (sort_key fst (zip (map (\<lambda>e. file_seconds fs (path e)) es) es)) = by_mtime fs es"
    unfolding by_mtime_def by (rule sort_decorated)
  have "get_duplicates md5 fs es =
     Inr (map (path \<circ> fst) (filter (\<lambda>(entry, v). \<not> v)
            (zip (by_mtime fs es) (map (\<lambda>e. file_content fs (path e) \<noteq> []) (by_mtime fs es)))),
          filter (\<lambda>files. length files > 1) (map snd (build []
            (zip (map (\<lambda>e. md5 (file_content fs (path e))) (by_mtime fs es)) (by_mtime fs es)))))"
    unfolding get_duplicates_def keys sum.case Let_def srt progressBar_def valid hashes build_def ..
  then show ?thesis
    unfolding filter_zip_flag zip_map_self hashed_def groups_of_def by simp
qed

lemma group_of_hashed:
  "group_of k (hashed md5 fs es) =
     map path (filter (\<lambda>e. md5 (file_content fs (path e)) = k) (by_mtime fs es))"
  by (simp add: group_of_def hashed_def filter_map comp_def)

lemma set_by_mtime: "set (by_mtime fs es) = set es"
  by (simp add: by_mtime_def)


lemma mem_group_of:
  "p \<in> set (group_of k (hashed md5 fs es)) \<longleftrightarrow>
     p \<in> path ` set es \<and> md5 (file_content fs p) = k"
  by (auto simp: group_of_hashed set_by_mtime)

lemma mem_duplicates:
  "g \<in> set (groups_of md5 fs es) \<longleftrightarrow>
     length g > 1 \<and> (\<exists>k. g = group_of k (hashed md5 fs es))"
proof -
  have "(\<exists>k\<in>fst ` set (hashed md5 fs es). g = group_of k (hashed md5 fs es)) \<and> length g > 1
      \<longleftrightarrow> (\<exists>k. g = group_of k (hashed md5 fs es)) \<and> length g > 1"
  proof (intro iffI conjI; elim conjE)
    assume "\<exists>k. g = group_of k (hashed md5 fs es)" and len: "length g > 1"
    then obtain k where g: "g = group_of k (hashed md5 fs es)" by auto
    from len have "g \<noteq> []" by auto
    then obtain x where "x \<in> set (filter (\<lambda>x. fst x = k) (hashed md5 fs es))"
      unfolding g group_of_def by (cases "filter (\<lambda>x. fst x = k) (hashed md5 fs es)") auto
    then have "k \<in> fst ` set (hashed md5 fs es)" by force
    with g show "\<exists>k\<in>fst ` set (hashed md5 fs es). g = group_of k (hashed md5 fs es)" by auto
  qed auto
  then show ?thesis
    using build_groups [of g "hashed md5 fs es"] by (auto simp: groups_of_def)
qed

lemma two_members_length: "p \<in> set g \<Longrightarrow> q \<in> set g \<Longrightarrow> p \<noteq> q \<Longrightarrow> length g > 1"
  by (cases g; cases "tl g") auto








lemma set_invalid:
  "set (map path (filter (\<lambda>e. file_content fs (path e) = []) (by_mtime fs es)))
     = {p \<in> path ` set es. file_content fs p = []}"
  by (auto simp: set_by_mtime)

lemma hd_or_tl: "p \<in> set g \<Longrightarrow> q \<in> set g \<Longrightarrow> p \<noteq> q \<Longrightarrow> p \<in> set (tl g) \<or> q \<in> set (tl g)"
  by (cases g) auto

section \<open>The classifier: files of size zero\<close>

text \<open>
  Claim C8. Let every entry given to the classifier be a regular file on disk. Then the path
  of every entry of size zero is in the invalid list, whatever group it belongs to; and two
  different paths of size zero lie in a common duplicate group, one of whose deletion
  candidates (the members after the first) is also in the invalid list. When the digest has no
  collisions the members of that group are exactly the invalid paths.
\<close>

theorem zero_size_invalid_and_grouped:
  assumes files: "\<forall>e\<in>set es. isfile fs (path e)"
  shows "\<exists>invalid_files duplicate_files.
     get_duplicates md5 fs es = Inr (invalid_files, duplicate_files) \<and>
     (\<forall>e\<in>set es. length (file_content fs (path e)) = 0 \<longrightarrow> path e \<in> set invalid_files) \<and>
     (\<forall>p\<in>path ` set es. \<forall>q\<in>path ` set es.
        p \<noteq> q \<and> length (file_content fs p) = 0 \<and> length (file_content fs q) = 0 \<longrightarrow>
        (\<exists>g\<in>set duplicate_files. p \<in> set g \<and> q \<in> set g \<and>
           (\<exists>c\<in>set (tl g). c \<in> set invalid_files) \<and>
           (inj md5 \<longrightarrow> set g = set invalid_files)))"
proof -
  let ?inv = "map path (filter (\<lambda>e. file_content fs (path e) = []) (by_mtime fs es))"
  let ?dups = "groups_of md5 fs es"
  let ?g = "group_of (md5 []) (hashed md5 fs es)"
  have inv: "path e \<in> set ?inv" if "e \<in> set es" "length (file_content fs (path e)) = 0" for e
    using that unfolding set_invalid by simp
  have grp: "\<exists>g\<in>set ?dups. p \<in> set g \<and> q \<in> set g \<and>
           (\<exists>c\<in>set (tl g). c \<in> set ?inv) \<and> (inj md5 \<longrightarrow> set g = set ?inv)"
    if p: "p \<in> path ` set es" and q: "q \<in> path ` set es" and pq: "p \<noteq> q"
      and ep: "file_content fs p = []" and eq: "file_content fs q = []" for p q
  proof -
    have mem: "p \<in> set ?g" "q \<in> set ?g"
      using p q ep eq by (simp_all add: mem_group_of)
    from mem pq have "length ?g > 1" by (rule two_members_length)
    then have dup: "?g \<in> set ?dups" by (auto simp: mem_duplicates)
    have pinv: "p \<in> set ?inv" and qinv: "q \<in> set ?inv"
      using p q ep eq unfolding set_invalid by simp_all
    from hd_or_tl [OF mem pq] pinv qinv have cand: "\<exists>c\<in>set (tl ?g). c \<in> set ?inv"
      by blast
    have among: "set ?g = set ?inv" if "inj md5"
      using that unfolding set_invalid by (auto simp: mem_group_of inj_eq)
    from dup mem cand among show ?thesis by blast
  qed
  show ?thesis
  proof (intro exI conjI)
    show "get_duplicates md5 fs es = Inr (?inv, ?dups)"
      by (rule get_duplicates_files [OF files])
    show "\<forall>e\<in>set es. length (file_content fs (path e)) = 0 \<longrightarrow> path e \<in> set ?inv"
      using inv by blast
    show "\<forall>p\<in>path ` set es. \<forall>q\<in>path ` set es.
        p \<noteq> q \<and> length (file_content fs p) = 0 \<and> length (file_content fs q) = 0 \<longrightarrow>
        (\<exists>g\<in>set ?dups. p \<in> set g \<and> q \<in> set g \<and>
           (\<exists>c\<in>set (tl g). c \<in> set ?inv) \<and> (inj md5 \<longrightarrow> set g = set ?inv))"
    proof (intro ballI impI)
      fix p q
      assume "p \<in> path ` set es" "q \<in> path ` set es"
        and "p \<noteq> q \<and> length (file_content fs p) = 0 \<and> length (file_content fs q) = 0"
      then show "\<exists>g\<in>set ?dups. p \<in> set g \<and> q \<in> set g \<and>
           (\<exists>c\<in>set (tl g). c \<in> set ?inv) \<and> (inj md5 \<longrightarrow> set g = set ?inv)"
        using grp [of p q] by simp
    qed
  qed
qed

lemma empties_files: "\<forall>e\<in>set empties_entries. isfile empties_fs (path e)"
  by (simp add: empties_entries_def empties_fs_def isfile_def lookup_def)

theorem zero_size_invalid_and_grouped_witness:
  "list_all (\<lambda>e. isfile empties_fs (path e)) empties_entries \<and> inj (\<lambda>c :: bytes. c) \<and>
   length (file_content empties_fs [''d'', ''e1'']) = 0 \<and>
   length (file_content empties_fs [''d'', ''e2'']) = 0 \<and>
   (\<exists>invalid_files duplicate_files.
      get_duplicates (\<lambda>c. c) empties_fs empties_entries = Inr (invalid_files, duplicate_files) \<and>
      [''d'', ''e1''] \<in> set invalid_files \<and>
      (\<exists>g\<in>set duplicate_files. [''d'', ''e1''] \<in> set g \<and> [''d'', ''e2''] \<in> set g \<and>
         (\<exists>c\<in>set (tl g). c \<in> set invalid_files) \<and> set g = set invalid_files))"
proof -
  define p1 :: path where "p1 = [''d'', ''e1'']"
  define p2 :: path where "p2 = [''d'', ''e2'']"
  define h :: "bytes \<Rightarrow> bytes" where "h = (\<lambda>c. c)"
  have inj: "inj h" by (simp add: h_def)
  have z1: "length (file_content empties_fs p1) = 0"
    and z2: "length (file_content empties_fs p2) = 0"
    by (simp_all add: file_content_def empties_fs_def lookup_def p1_def p2_def)
  have m1: "p1 \<in> path ` set empties_entries" and m2: "p2 \<in> path ` set empties_entries"
    by (simp_all add: empties_entries_def p1_def p2_def)
  have ne: "p1 \<noteq> p2" by (simp add: p1_def p2_def)
  from zero_size_invalid_and_grouped [OF empties_files, of h]
  obtain invalid_files duplicate_files where
    r: "get_duplicates h empties_fs empties_entries = Inr (invalid_files, duplicate_files)"
    and a: "\<forall>e\<in>set empties_entries. length (file_content empties_fs (path e)) = 0 \<longrightarrow>
              path e \<in> set invalid_files"
    and b: "\<forall>p\<in>path ` set empties_entries. \<forall>q\<in>path ` set empties_entries.
        p \<noteq> q \<and> length (file_content empties_fs p) = 0
          \<and> length (file_content empties_fs q) = 0 \<longrightarrow>
        (\<exists>g\<in>set duplicate_files. p \<in> set g \<and> q \<in> set g \<and>
           (\<exists>c\<in>set (tl g). c \<in> set invalid_files) \<and>
           (inj h \<longrightarrow> set g = set invalid_files))"
    by blast
  from a m1 z1 have i1: "p1 \<in> set invalid_files" by blast
  from b m1 m2 ne z1 z2 inj
  have g: "\<exists>g\<in>set duplicate_files. p1 \<in> set g \<and> p2 \<in> set g \<and>
         (\<exists>c\<in>set (tl g). c \<in> set invalid_files) \<and> set g = set invalid_files"
    by blast
  have "list_all (\<lambda>e. isfile empties_fs (path e)) empties_entries"
    using empties_files unfolding list_all_iff .
  with r i1 g z1 z2 inj
  have "list_all (\<lambda>e. isfile empties_fs (path e)) empties_entries \<and> inj h \<and>
   length (file_content empties_fs p1) = 0 \<and> length (file_content empties_fs p2) = 0 \<and>
   (\<exists>invalid_files duplicate_files.
      get_duplicates h empties_fs empties_entries = Inr (invalid_files, duplicate_files) \<and>
      p1 \<in> set invalid_files \<and>
      (\<exists>g\<in>set duplicate_files. p1 \<in> set g \<and> p2 \<in> set g \<and>
         (\<exists>c\<in>set (tl g). c \<in> set invalid_files) \<and> set g = set invalid_files))"
    by blast
  then show ?thesis unfolding p1_def p2_def h_def .
qed

section \<open>The deletion executor without confirmation\<close>

lemma lookup_removed: "lookup (removed ps fs) q = (if q \<in> set ps then None else lookup fs q)"
proof (induction fs)
  case Nil
  show ?case by (simp add: removed_def lookup_def)
next
  case (Cons x fs)
  then show ?case
    by (cases x) (auto simp: removed_def lookup_def)
qed

lemma removed_Nil: "removed [] fs = fs"
  by (simp add: removed_def)

lemma removed_step: "filter (\<lambda>(q, n). q \<noteq> p) (removed ps fs) = removed (ps @ [p]) fs"
  by (induction fs) (auto simp: removed_def)

lemma removed_append: "removed qs (removed ps fs) = removed (ps @ qs) fs"
  by (induction fs) (auto simp: removed_def)

lemma isfile_removed: "isfile (removed ps fs) q \<longleftrightarrow> q \<notin> set ps \<and> isfile fs q"
  by (simp add: isfile_def lookup_removed)

lemma exists_removed: "exists (removed ps fs) q \<longleftrightarrow> q \<notin> set ps \<and> exists fs q"
  by (simp add: exists_def lookup_removed)

lemma os_remove_file: "isfile fs p \<Longrightarrow> os_remove fs p = Inr (removed [p] fs)"
  by (auto simp: isfile_def os_remove_def removed_def split: option.splits node.splits)

lemma os_remove_fails: "\<not> isfile fs p \<Longrightarrow> \<exists>e. os_remove fs p = Inl e"
  by (auto simp: isfile_def os_remove_def split: option.splits node.splits)

lemma deleted_Nil: "deleted [] w = w"
  by (simp add: deleted_def removed_Nil)

lemma deleted_deleted: "deleted qs (deleted ps w) = deleted (ps @ qs) w"
  by (simp add: deleted_def removed_append)

lemma remove_file_ok: "isfile (files w) p \<Longrightarrow> remove_file w p = Inr (deleted [p] w)"
  by (simp add: remove_file_def os_remove_file deleted_def print_def)

lemma remove_file_fails: "os_remove (files w) p = Inl e \<Longrightarrow> remove_file w p = Inl (e, w)"
  by (simp add: remove_file_def)

lemma delete_candidate_False: "delete_candidate w p False = Some (remove_file w p)"
  by (simp add: delete_candidate_def)

lemma files_deleted: "files (deleted ps w) = removed ps (files w)"
  by (simp add: deleted_def)

lemma delete_each_ok:
  "distinct ps \<Longrightarrow> \<forall>p\<in>set ps. isfile (files w) p \<Longrightarrow>
   delete_each w ps False = Some (Inr (deleted ps w))"
proof (induction ps arbitrary: w)
  case Nil
  show ?case by (simp add: deleted_Nil)
next
  case (Cons p ps)
  from Cons.prems have p: "isfile (files w) p" by simp
  have rest: "\<forall>q\<in>set ps. isfile (files (deleted [p] w)) q"
    using Cons.prems by (auto simp: files_deleted isfile_removed)
  from Cons.prems have "distinct ps" by simp
  from Cons.IH [OF this rest]
  have "delete_each (deleted [p] w) ps False = Some (Inr (deleted ([p] @ ps) w))"
    by (simp only: deleted_deleted)
  then show ?case
    by (simp add: delete_candidate_False remove_file_ok [OF p])
qed

lemma delete_each_append:
  "delete_each w (xs @ ys) flag =
     (case delete_each w xs flag of
        None \<Rightarrow> None
      | Some (Inl x) \<Rightarrow> Some (Inl x)
      | Some (Inr w') \<Rightarrow> delete_each w' ys flag)"
  by (induction xs arbitrary: w) (auto split: option.splits sum.splits)

lemma delete_groups_candidates:
  "delete_groups w gs flag = delete_each w (concat (map tl gs)) flag"
  by (induction gs arbitrary: w) (auto simp: delete_each_append split: option.splits sum.splits)

lemma remove_duplicates_files_candidates:
  "remove_duplicates_files w gs flag = delete_each w (concat (map tl gs)) flag"
  by (simp add: remove_duplicates_files_def progressBar_def delete_groups_candidates)

lemma delete_each_fails:
  assumes "distinct pre" and "\<forall>q\<in>set pre. isfile (files w) q"
    and "os_remove (removed pre (files w)) p = Inl e"
  shows "delete_each w (pre @ p # post) False = Some (Inl (e, deleted pre w))"
proof -
  have "remove_file (deleted pre w) p = Inl (e, deleted pre w)"
    by (rule remove_file_fails) (simp add: files_deleted assms(3))
  then show ?thesis
    by (simp add: delete_each_append delete_each_ok [OF assms(1,2)] delete_candidate_False)
qed

lemma candidates_subset: "set (concat (map tl gs)) \<subseteq> set (concat gs)"
proof (induction gs)
  case Nil
  show ?case by simp
next
  case (Cons g gs)
  have "set (tl g) \<subseteq> set g" by (cases g) auto
  with Cons show ?case by auto
qed

lemma distinct_candidates: "distinct (concat gs) \<Longrightarrow> distinct (concat (map tl gs))"
proof (induction gs)
  case Nil
  show ?case by simp
next
  case (Cons g gs)
  have sub: "set (tl g) \<subseteq> set g" by (cases g) auto
  from Cons.prems have "distinct g" "distinct (concat gs)" "set g \<inter> set (concat gs) = {}"
    by auto
  with Cons.IH sub candidates_subset [of gs] show ?case
    by (auto simp: distinct_tl)
qed

lemma hd_not_candidate:
  "distinct (concat gs) \<Longrightarrow> g \<in> set gs \<Longrightarrow> g \<noteq> [] \<Longrightarrow> hd g \<notin> set (concat (map tl gs))"
proof (induction gs)
  case Nil
  then show ?case by simp
next
  case (Cons a gs)
  from Cons.prems have da: "distinct a" and dr: "distinct (concat gs)"
    and disj: "set a \<inter> set (concat gs) = {}"
    by auto
  have suba: "set (tl a) \<subseteq> set a" by (cases a) auto
  show ?case
  proof (cases "g = a")
    case True
    with Cons.prems da have "hd g \<notin> set (tl g)" by (cases g) auto
    moreover from True Cons.prems have "hd g \<in> set a" by simp
    with disj candidates_subset [of gs] have "hd g \<notin> set (concat (map tl gs))" by blast
    ultimately show ?thesis using True by simp
  next
    case False
    with Cons.prems have mem: "g \<in> set gs" by simp
    from Cons.IH [OF dr mem Cons.prems(3)] have "hd g \<notin> set (concat (map tl gs))" .
    moreover from mem Cons.prems(3) have "hd g \<in> set (concat gs)"
      using hd_in_set by fastforce
    with disj suba have "hd g \<notin> set (tl a)" by blast
    ultimately show ?thesis by simp
  qed
qed

lemma count_removed:
  assumes "g \<noteq> []" and "exists fs (hd g)" and "\<forall>p\<in>set (tl g). \<not> exists fs p"
  shows "length (filter (\<lambda>p. \<not> exists fs p) g) = length g - 1"
proof -
  from assms(1) obtain x xs where g: "g = x # xs" by (cases g) auto
  with assms(3) have "filter (\<lambda>p. \<not> exists fs p) xs = xs" by (simp add: filter_id_conv)
  with g assms(2) show ?thesis by simp
qed

lemma isfile_exists: "isfile fs p \<Longrightarrow> exists fs p"
  by (auto simp: isfile_def exists_def split: option.splits)

text \<open>
  Claim C2. Let the members of the duplicate groups be pairwise different regular files on
  disk. Then \<open>remove_duplicates_files\<close> without confirmation returns, and for every group of
  \<open>N \<ge> 2\<close> members the first member is still on disk, unchanged, none of the other members
  exists any more, and exactly \<open>N - 1\<close> members of the group are gone. No path other than
  those candidates is touched.
\<close>

theorem remove_duplicates_keeps_first:
  assumes dist: "distinct (concat gs)" and files: "\<forall>p\<in>set (concat gs). isfile (files w) p"
  shows "\<exists>w'. remove_duplicates_files w gs False = Some (Inr w') \<and>
     (\<forall>g\<in>set gs. 2 \<le> length g \<longrightarrow>
        isfile (files w') (hd g) \<and> lookup (files w') (hd g) = lookup (files w) (hd g) \<and>
        (\<forall>p\<in>set (tl g). \<not> exists (files w') p) \<and>
        length (filter (\<lambda>p. \<not> exists (files w') p) g) = length g - 1) \<and>
     (\<forall>q. q \<notin> set (concat (map tl gs)) \<longrightarrow> lookup (files w') q = lookup (files w) q)"
proof -
  let ?cs = "concat (map tl gs)"
  let ?w = "deleted ?cs w"
  have cfiles: "\<forall>p\<in>set ?cs. isfile (files w) p"
    using files candidates_subset [of gs] by blast
  have run: "remove_duplicates_files w gs False = Some (Inr ?w)"
    unfolding remove_duplicates_files_candidates
    by (rule delete_each_ok [OF distinct_candidates [OF dist] cfiles])
  have group: "isfile (files ?w) (hd g) \<and> lookup (files ?w) (hd g) = lookup (files w) (hd g) \<and>
        (\<forall>p\<in>set (tl g). \<not> exists (files ?w) p) \<and>
        length (filter (\<lambda>p. \<not> exists (files ?w) p) g) = length g - 1"
    if g: "g \<in> set gs" and len: "2 \<le> length g" for g
  proof -
    from len have ne: "g \<noteq> []" by auto
    from hd_not_candidate [OF dist g ne] have keep: "hd g \<notin> set ?cs" .
    from g ne have "hd g \<in> set (concat gs)"
      using hd_in_set by fastforce
    with files have "isfile (files w) (hd g)" by blast
    with keep have first: "isfile (files ?w) (hd g)"
      by (simp add: files_deleted isfile_removed)
    from keep have same: "lookup (files ?w) (hd g) = lookup (files w) (hd g)"
      by (simp add: files_deleted lookup_removed)
    from g have "set (tl g) \<subseteq> set ?cs" by auto
    then have gone: "\<forall>p\<in>set (tl g). \<not> exists (files ?w) p"
      by (auto simp: files_deleted exists_removed)
    from count_removed [OF ne isfile_exists [OF first] gone] first same gone
    show ?thesis by blast
  qed
  have frame: "lookup (files ?w) q = lookup (files w) q" if "q \<notin> set ?cs" for q
    using that by (simp add: files_deleted lookup_removed)
  from run group frame show ?thesis by blast
qed

text \<open>
  Claim C10. Let the invalid paths be pairwise different regular files on disk. Then
  \<open>remove_invalid_files\<close> without confirmation returns and no path of the list exists any
  more, the first of the list included: no representative is kept. No other path is touched.
\<close>

theorem remove_invalid_files_removes_all:
  assumes dist: "distinct ps" and files: "\<forall>p\<in>set ps. isfile (files w) p"
  shows "\<exists>w'. remove_invalid_files w ps False = Some (Inr w') \<and>
     (\<forall>p\<in>set ps. \<not> exists (files w') p) \<and>
     (ps \<noteq> [] \<longrightarrow> \<not> exists (files w') (hd ps)) \<and>
     (\<forall>q. q \<notin> set ps \<longrightarrow> lookup (files w') q = lookup (files w) q)"
proof -
  have run: "remove_invalid_files w ps False = Some (Inr (deleted ps w))"
    unfolding remove_invalid_files_def progressBar_def
    by (rule delete_each_ok [OF dist files])
  have gone: "\<forall>p\<in>set ps. \<not> exists (files (deleted ps w)) p"
    by (simp add: files_deleted exists_removed)
  then have first: "ps \<noteq> [] \<longrightarrow> \<not> exists (files (deleted ps w)) (hd ps)"
    by simp
  have frame: "\<forall>q. q \<notin> set ps \<longrightarrow> lookup (files (deleted ps w)) q = lookup (files w) q"
    by (simp add: files_deleted lookup_removed)
  from run gone first frame show ?thesis by blast
qed

theorem remove_duplicates_keeps_first_witness:
  "distinct (concat example_groups) \<and>
   list_all (isfile (files example_world)) (concat example_groups) \<and>
   (\<exists>w'. remove_duplicates_files example_world example_groups False = Some (Inr w') \<and>
      isfile (files w') [''d'', ''a.txt''] \<and> \<not> exists (files w') [''d'', ''b.txt''] \<and>
      lookup (files w') [''d'', ''c.txt''] = lookup (files example_world) [''d'', ''c.txt''])"
proof -
  define a :: path where "a = [''d'', ''a.txt'']"
  define b :: path where "b = [''d'', ''b.txt'']"
  define c :: path where "c = [''d'', ''c.txt'']"
  have G: "example_groups = [[a, b]]"
    by (simp add: example_groups_def a_def b_def)
  have dist: "distinct (concat example_groups)"
    by (simp add: example_groups_def)
  have files: "\<forall>p\<in>set (concat example_groups). isfile (files example_world) p"
    by (simp add: example_groups_def example_world_def example_fs_def isfile_def lookup_def)
  have c: "c \<notin> set (concat (map tl example_groups))"
    by (simp add: example_groups_def c_def)
  from remove_duplicates_keeps_first [OF dist files]
  obtain w' where run: "remove_duplicates_files example_world example_groups False = Some (Inr w')"
    and grp: "\<forall>g\<in>set example_groups. 2 \<le> length g \<longrightarrow>
        isfile (files w') (hd g) \<and> lookup (files w') (hd g) = lookup (files example_world) (hd g) \<and>
        (\<forall>p\<in>set (tl g). \<not> exists (files w') p) \<and>
        length (filter (\<lambda>p. \<not> exists (files w') p) g) = length g - 1"
    and frame: "\<forall>q. q \<notin> set (concat (map tl example_groups)) \<longrightarrow>
        lookup (files w') q = lookup (files example_world) q"
    by blast
  from grp have "isfile (files w') a \<and> \<not> exists (files w') b"
    unfolding G by simp
  moreover from frame c have "lookup (files w') c = lookup (files example_world) c"
    by blast
  moreover have "list_all (isfile (files example_world)) (concat example_groups)"
    using files unfolding list_all_iff .
  ultimately have "distinct (concat example_groups) \<and>
   list_all (isfile (files example_world)) (concat example_groups) \<and>
   (\<exists>w'. remove_duplicates_files example_world example_groups False = Some (Inr w') \<and>
      isfile (files w') a \<and> \<not> exists (files w') b \<and>
      lookup (files w') c = lookup (files example_world) c)"
    using dist run by blast
  then show ?thesis unfolding a_def b_def c_def .
qed

theorem remove_invalid_files_removes_all_witness:
  "distinct [[''d'', ''empty.bin'']] \<and>
   list_all (isfile (files example_world)) [[''d'', ''empty.bin'']] \<and>
   (\<exists>w'. remove_invalid_files example_world [[''d'', ''empty.bin'']] False = Some (Inr w') \<and>
      \<not> exists (files w') [''d'', ''empty.bin''] \<and>
      lookup (files w') [''d'', ''a.txt''] = lookup (files example_world) [''d'', ''a.txt''])"
proof -
  define a :: path where "a = [''d'', ''a.txt'']"
  define z :: path where "z = [''d'', ''empty.bin'']"
  have dist: "distinct [z]" by simp
  have files: "\<forall>p\<in>set [z]. isfile (files example_world) p"
    by (simp add: z_def example_world_def example_fs_def isfile_def lookup_def)
  have az: "a \<notin> set [z]" by (simp add: a_def z_def)
  from remove_invalid_files_removes_all [OF dist files]
  obtain w' where run: "remove_invalid_files example_world [z] False = Some (Inr w')"
    and gone: "\<forall>p\<in>set [z]. \<not> exists (files w') p"
    and frame: "\<forall>q. q \<notin> set [z] \<longrightarrow> lookup (files w') q = lookup (files example_world) q"
    by blast
  from gone have "\<not> exists (files w') z" by simp
  moreover from frame az have "lookup (files w') a = lookup (files example_world) a" by blast
  moreover have "list_all (isfile (files example_world)) [z]"
    using files unfolding list_all_iff .
  ultimately have "distinct [z] \<and> list_all (isfile (files example_world)) [z] \<and>
   (\<exists>w'. remove_invalid_files example_world [z] False = Some (Inr w') \<and>
      \<not> exists (files w') z \<and> lookup (files w') a = lookup (files example_world) a)"
    using dist run by blast
  then show ?thesis unfolding a_def z_def .
qed

text \<open>
  Claim C3 as stated fails: with a candidate that vanished, the run ends with the exception;
  the candidate after it is still on disk and no failure outcome has been printed.
\<close>

theorem deletion_failure_counterexample:
  "remove_duplicates_files vanished_world vanished_groups False =
     Some (Inl (FileNotFoundError [''d'', ''v.txt''],
       \<lparr>files =
          [([''d''], Dir 4096 0),
           ([''d'', ''a.txt''], File ''hi'' 1000000000),
           ([''d'', ''c.txt''], File ''hi'' 4000000000)],
        stdin = sconst ''n'',
        stdout = [SUCCESSFULLY_REMOVED_MSG [''d'', ''b.txt'']]\<rparr>))"
  by (simp add: remove_duplicates_files_def progressBar_def vanished_groups_def vanished_world_def
      delete_candidate_def remove_file_def os_remove_def lookup_def print_def)

section \<open>The deletion executor with confirmation\<close>

lemma input_asked: "input (DELETE_CONFIRMATION_MSG p) w = (shd (stdin w), asked (Suc 0) p w)"
  by (simp add: input_def asked_def)

lemma asked_asked: "asked m p (asked n p w) = asked (n + m) p w"
  by (simp add: asked_def sdrop_add replicate_add)

lemma stdin_asked: "stdin (asked n p w) = sdrop n (stdin w)"
  by (simp add: asked_def)

lemma files_asked: "files (asked n p w) = files w"
  by (simp add: asked_def)

lemma reply_loop_valid: "valid_reply res \<Longrightarrow> reply_loop p res w = Some (res, w)"
  by (subst reply_loop.simps) (simp add: valid_reply_def)

lemma reply_loop_invalid:
  "\<not> valid_reply res \<Longrightarrow> reply_loop p res w = reply_loop p (shd (stdin w)) (asked (Suc 0) p w)"
  by (subst reply_loop.simps) (simp add: valid_reply_def input_asked)

lemma reply_loop_first:
  "\<forall>i<n. \<not> valid_reply (stdin w !! i) \<Longrightarrow> valid_reply (stdin w !! n) \<Longrightarrow>
   \<not> valid_reply res \<Longrightarrow> reply_loop p res w = Some (stdin w !! n, asked (Suc n) p w)"
proof (induction n arbitrary: res w)
  case 0
  then show ?case
    by (simp add: reply_loop_invalid reply_loop_valid)
next
  case (Suc n)
  let ?w = "asked (Suc 0) p w"
  have s: "stdin ?w !! i = stdin w !! Suc i" for i
    by (simp add: stdin_asked)
  from Suc.prems(1) have bad: "\<forall>i<n. \<not> valid_reply (stdin ?w !! i)"
    by (auto simp: s)
  from Suc.prems(2) have good: "valid_reply (stdin ?w !! n)"
    by (simp add: s)
  from Suc.prems(1) have first: "\<not> valid_reply (shd (stdin w))"
    by (metis snth.simps(1) zero_less_Suc)
  from Suc.IH [OF bad good first]
  have "reply_loop p (shd (stdin w)) ?w = Some (stdin w !! Suc n, asked (Suc (Suc n)) p w)"
    by (simp add: s asked_asked)
  with Suc.prems(3) show ?case
    by (simp add: reply_loop_invalid)
qed

lemma reply_loop_Some:
  assumes "reply_loop p res w = Some r"
  shows "valid_reply res \<or> (\<exists>n. valid_reply (stdin w !! n))"
proof (rule reply_loop.raw_induct
    [where P = "\<lambda>p res w r. valid_reply res \<or> (\<exists>n. valid_reply (stdin w !! n))", OF _ assms])
  fix f :: "path \<Rightarrow> string \<Rightarrow> world \<Rightarrow> (string \<times> world) option"
    and p res w r
  assume IH: "\<And>p res w r. f p res w = Some r \<Longrightarrow>
      valid_reply res \<or> (\<exists>n. valid_reply (stdin w !! n))"
    and body: "(if res \<notin> set [''y'', ''n'']
      then f p (fst (input (DELETE_CONFIRMATION_MSG p) w))
             (snd (input (DELETE_CONFIRMATION_MSG p) w))
      else Some (res, w)) = Some r"
  show "valid_reply res \<or> (\<exists>n. valid_reply (stdin w !! n))"
  proof (cases "valid_reply res")
    case True
    then show ?thesis by simp
  next
    case False
    with body have "f p (shd (stdin w)) (asked (Suc 0) p w) = Some r"
      by (simp add: valid_reply_def input_asked)
    from IH [OF this]
    have "valid_reply (shd (stdin w)) \<or> (\<exists>n. valid_reply (stdin (asked (Suc 0) p w) !! n))" .
    then show ?thesis
    proof
      assume "valid_reply (shd (stdin w))"
      then have "valid_reply (stdin w !! 0)" by simp
      then show ?thesis by blast
    next
      assume "\<exists>n. valid_reply (stdin (asked (Suc 0) p w) !! n)"
      then obtain n where "valid_reply (stdin w !! Suc n)"
        by (auto simp: stdin_asked)
      then show ?thesis by blast
    qed
  qed
qed

lemma delete_candidate_True:
  "delete_candidate w p True =
     (case reply_loop p (shd (stdin w)) (asked (Suc 0) p w) of
        None \<Rightarrow> None
      | Some (res, w2) \<Rightarrow>
          if res = ''y'' then Some (remove_file w2 p)
          else Some (Inr (print (CANCELLED_BY_USER_MSG p) w2)))"
  by (simp add: delete_candidate_def input_asked)

lemma first_reply:
  assumes bad: "\<forall>i<n. \<not> valid_reply (stdin w !! i)" and good: "valid_reply (stdin w !! n)"
  shows "reply_loop p (shd (stdin w)) (asked (Suc 0) p w) = Some (stdin w !! n, asked (Suc n) p w)"
proof (cases n)
  case 0
  with good show ?thesis by (simp add: reply_loop_valid)
next
  case (Suc m)
  let ?w = "asked (Suc 0) p w"
  have s: "stdin ?w !! i = stdin w !! Suc i" for i
    by (simp add: stdin_asked)
  from bad Suc have b: "\<forall>i<m. \<not> valid_reply (stdin ?w !! i)" by (auto simp: s)
  from good Suc have g: "valid_reply (stdin ?w !! m)" by (simp add: s)
  from bad Suc have f: "\<not> valid_reply (shd (stdin w))"
    by (metis snth.simps(1) zero_less_Suc)
  from reply_loop_first [OF b g f, of p] Suc show ?thesis
    by (simp add: s asked_asked)
qed

lemma least_valid:
  "valid_reply (stdin w !! n) \<Longrightarrow>
   \<exists>m. (\<forall>i<m. \<not> valid_reply (stdin w !! i)) \<and> valid_reply (stdin w !! m)"
  using exists_least_iff [of "\<lambda>n. valid_reply (stdin w !! n)"] by blast

lemma reply_at:
  assumes "\<forall>i<n. \<not> valid_reply (stdin w !! i)" and "stdin w !! n = r" and "valid_reply r"
  shows "reply_loop p (shd (stdin w)) (asked (Suc 0) p w) = Some (r, asked (Suc n) p w)"
  using first_reply [of n w p] assms by simp

lemma confirmed_removes:
  assumes bad: "\<forall>i<n. \<not> valid_reply (stdin w !! i)" and yes: "stdin w !! n = ''y''"
    and isf: "isfile (files w) p"
  shows "delete_candidate w p True = Some (Inr (deleted [p] (asked (Suc n) p w)))"
proof -
  have "valid_reply ''y''" by (simp add: valid_reply_def)
  from reply_at [OF bad yes this]
  have "reply_loop p (shd (stdin w)) (asked (Suc 0) p w) = Some (''y'', asked (Suc n) p w)" .
  moreover from isf have "remove_file (asked (Suc n) p w) p = Inr (deleted [p] (asked (Suc n) p w))"
    by (intro remove_file_ok) (simp add: files_asked)
  ultimately show ?thesis by (simp add: delete_candidate_True)
qed

lemma confirmed_raises:
  assumes bad: "\<forall>i<n. \<not> valid_reply (stdin w !! i)" and yes: "stdin w !! n = ''y''"
    and fails: "os_remove (files w) p = Inl e"
  shows "delete_candidate w p True = Some (Inl (e, asked (Suc n) p w))"
proof -
  have "valid_reply ''y''" by (simp add: valid_reply_def)
  from reply_at [OF bad yes this]
  have "reply_loop p (shd (stdin w)) (asked (Suc 0) p w) = Some (''y'', asked (Suc n) p w)" .
  moreover from fails have "remove_file (asked (Suc n) p w) p = Inl (e, asked (Suc n) p w)"
    by (intro remove_file_fails) (simp add: files_asked)
  ultimately show ?thesis by (simp add: delete_candidate_True)
qed

lemma refused_keeps:
  assumes bad: "\<forall>i<n. \<not> valid_reply (stdin w !! i)" and no: "stdin w !! n = ''n''"
  shows "delete_candidate w p True
      = Some (Inr (print (CANCELLED_BY_USER_MSG p) (asked (Suc n) p w)))"
proof -
  have "valid_reply ''n''" by (simp add: valid_reply_def)
  from reply_at [OF bad no this]
  have "reply_loop p (shd (stdin w)) (asked (Suc 0) p w) = Some (''n'', asked (Suc n) p w)" .
  then show ?thesis by (simp add: delete_candidate_True)
qed

text \<open>
  Claim C6. With confirmation, the treatment of a deletion candidate returns exactly when
  some line of the terminal is \<open>y\<close> or \<open>n\<close>. When line \<open>n\<close> is the first such line, the prompt
  has been printed \<open>n + 1\<close> times (once, and once more for each of the \<open>n\<close> lines that are no
  reply), these \<open>n + 1\<close> lines have been read, and the outcome is that of line \<open>n\<close>. On \<open>y\<close>
  \<open>os.remove\<close> is called: a regular file is then no longer on disk, every other path is as it
  was and the success is reported; when \<open>os.remove\<close> fails nothing more is printed and its
  error ends the treatment. On \<open>n\<close> the file system is as it was and the refusal is reported.
\<close>

theorem confirmation_loop:
  "((\<exists>r. delete_candidate w p True = Some r) \<longleftrightarrow> (\<exists>n. valid_reply (stdin w !! n))) \<and>
   (\<forall>n. (\<forall>i<n. \<not> valid_reply (stdin w !! i)) \<and> valid_reply (stdin w !! n) \<longrightarrow>
      delete_candidate w p True =
        Some (if stdin w !! n = ''y'' then remove_file (asked (Suc n) p w) p
              else Inr (print (CANCELLED_BY_USER_MSG p) (asked (Suc n) p w)))) \<and>
   (\<forall>n. (\<forall>i<n. \<not> valid_reply (stdin w !! i)) \<and> stdin w !! n = ''y'' \<and> isfile (files w) p \<longrightarrow>
      (\<exists>w'. delete_candidate w p True = Some (Inr w') \<and>
         \<not> exists (files w') p \<and>
         (\<forall>q. q \<noteq> p \<longrightarrow> lookup (files w') q = lookup (files w) q) \<and>
         stdin w' = sdrop (Suc n) (stdin w) \<and>
         stdout w' = stdout w @ replicate (Suc n) (DELETE_CONFIRMATION_MSG p)
                       @ [SUCCESSFULLY_REMOVED_MSG p])) \<and>
   (\<forall>n e. (\<forall>i<n. \<not> valid_reply (stdin w !! i)) \<and> stdin w !! n = ''y''
          \<and> os_remove (files w) p = Inl e \<longrightarrow>
      (\<exists>w'. delete_candidate w p True = Some (Inl (e, w')) \<and>
         files w' = files w \<and>
         stdin w' = sdrop (Suc n) (stdin w) \<and>
         stdout w' = stdout w @ replicate (Suc n) (DELETE_CONFIRMATION_MSG p))) \<and>
   (\<forall>n. (\<forall>i<n. \<not> valid_reply (stdin w !! i)) \<and> stdin w !! n = ''n'' \<longrightarrow>
      (\<exists>w'. delete_candidate w p True = Some (Inr w') \<and>
         files w' = files w \<and>
         stdin w' = sdrop (Suc n) (stdin w) \<and>
         stdout w' = stdout w @ replicate (Suc n) (DELETE_CONFIRMATION_MSG p)
                       @ [CANCELLED_BY_USER_MSG p]))"
proof (intro conjI allI impI)
  fix n
  assume "(\<forall>i<n. \<not> valid_reply (stdin w !! i)) \<and> valid_reply (stdin w !! n)"
  then have "reply_loop p (shd (stdin w)) (asked (Suc 0) p w)
      = Some (stdin w !! n, asked (Suc n) p w)"
    by (intro first_reply) simp_all
  then show "delete_candidate w p True =
        Some (if stdin w !! n = ''y'' then remove_file (asked (Suc n) p w) p
              else Inr (print (CANCELLED_BY_USER_MSG p) (asked (Suc n) p w)))"
    by (simp add: delete_candidate_True)
next
  show "(\<exists>r. delete_candidate w p True = Some r) \<longleftrightarrow> (\<exists>n. valid_reply (stdin w !! n))"
  proof
    assume "\<exists>r. delete_candidate w p True = Some r"
    then obtain r where "reply_loop p (shd (stdin w)) (asked (Suc 0) p w) = Some r"
      by (auto simp: delete_candidate_True split: option.splits)
    from reply_loop_Some [OF this]
    have "valid_reply (stdin w !! 0) \<or> (\<exists>n. valid_reply (stdin w !! Suc n))"
      by (simp add: stdin_asked)
    then show "\<exists>n. valid_reply (stdin w !! n)" by blast
  next
    assume "\<exists>n. valid_reply (stdin w !! n)"
    then obtain m where "\<forall>i<m. \<not> valid_reply (stdin w !! i)" "valid_reply (stdin w !! m)"
      using least_valid by blast
    then have "reply_loop p (shd (stdin w)) (asked (Suc 0) p w)
      = Some (stdin w !! m, asked (Suc m) p w)"
      by (rule first_reply)
    then show "\<exists>r. delete_candidate w p True = Some r"
      by (simp add: delete_candidate_True)
  qed
next
  fix n
  assume a: "(\<forall>i<n. \<not> valid_reply (stdin w !! i)) \<and> stdin w !! n = ''y'' \<and> isfile (files w) p"
  let ?w = "deleted [p] (asked (Suc n) p w)"
  from a have "delete_candidate w p True = Some (Inr ?w)"
    by (intro confirmed_removes) simp_all
  moreover have "\<not> exists (files ?w) p"
    by (simp add: files_deleted files_asked exists_removed)
  moreover have "\<forall>q. q \<noteq> p \<longrightarrow> lookup (files ?w) q = lookup (files w) q"
    by (simp add: files_deleted files_asked lookup_removed)
  moreover have "stdin ?w = sdrop (Suc n) (stdin w)"
    by (simp add: deleted_def asked_def)
  moreover have "stdout ?w = stdout w @ replicate (Suc n) (DELETE_CONFIRMATION_MSG p)
                       @ [SUCCESSFULLY_REMOVED_MSG p]"
    by (simp add: deleted_def asked_def)
  ultimately show "\<exists>w'. delete_candidate w p True = Some (Inr w') \<and>
         \<not> exists (files w') p \<and>
         (\<forall>q. q \<noteq> p \<longrightarrow> lookup (files w') q = lookup (files w) q) \<and>
         stdin w' = sdrop (Suc n) (stdin w) \<and>
         stdout w' = stdout w @ replicate (Suc n) (DELETE_CONFIRMATION_MSG p)
                       @ [SUCCESSFULLY_REMOVED_MSG p]"
    by blast
next
  fix n e
  assume a: "(\<forall>i<n. \<not> valid_reply (stdin w !! i)) \<and> stdin w !! n = ''y''
          \<and> os_remove (files w) p = Inl e"
  let ?w = "asked (Suc n) p w"
  from a have "delete_candidate w p True = Some (Inl (e, ?w))"
    by (intro confirmed_raises) simp_all
  moreover have "files ?w = files w" by (simp add: files_asked)
  moreover have "stdin ?w = sdrop (Suc n) (stdin w)" by (simp add: asked_def)
  moreover have "stdout ?w = stdout w @ replicate (Suc n) (DELETE_CONFIRMATION_MSG p)"
    by (simp add: asked_def)
  ultimately show "\<exists>w'. delete_candidate w p True = Some (Inl (e, w')) \<and>
         files w' = files w \<and>
         stdin w' = sdrop (Suc n) (stdin w) \<and>
         stdout w' = stdout w @ replicate (Suc n) (DELETE_CONFIRMATION_MSG p)"
    by blast
next
  fix n
  assume a: "(\<forall>i<n. \<not> valid_reply (stdin w !! i)) \<and> stdin w !! n = ''n''"
  let ?w = "print (CANCELLED_BY_USER_MSG p) (asked (Suc n) p w)"
  from a have "delete_candidate w p True = Some (Inr ?w)"
    by (intro refused_keeps) simp_all
  moreover have "files ?w = files w" by (simp add: print_def asked_def)
  moreover have "stdin ?w = sdrop (Suc n) (stdin w)" by (simp add: print_def asked_def)
  moreover have "stdout ?w = stdout w @ replicate (Suc n) (DELETE_CONFIRMATION_MSG p)
                       @ [CANCELLED_BY_USER_MSG p]"
    by (simp add: print_def asked_def)
  ultimately show "\<exists>w'. delete_candidate w p True = Some (Inr w') \<and>
         files w' = files w \<and>
         stdin w' = sdrop (Suc n) (stdin w) \<and>
         stdout w' = stdout w @ replicate (Suc n) (DELETE_CONFIRMATION_MSG p)
                       @ [CANCELLED_BY_USER_MSG p]"
    by blast
qed

lemma delete_candidate_no:
  "shd (stdin w) = ''n'' \<Longrightarrow>
   delete_candidate w p True = Some (Inr (print (CANCELLED_BY_USER_MSG p) (asked (Suc 0) p w)))"
  by (simp add: delete_candidate_True reply_loop_valid valid_reply_def)

lemma refused_Nil: "refused [] w = w"
  by (simp add: refused_def)

lemma refused_Cons:
  "refused ps (print (CANCELLED_BY_USER_MSG p) (asked (Suc 0) p w))
     = (refused (p # ps) w)\<lparr>stdin := stl (stdin w)\<rparr>"
  by (simp add: refused_def print_def asked_def)

lemma delete_each_refused:
  "stdin w = sconst ''n'' \<Longrightarrow> delete_each w ps True = Some (Inr (refused ps w))"
proof (induction ps arbitrary: w)
  case Nil
  show ?case by (simp add: refused_Nil)
next
  case (Cons p ps)
  let ?w = "print (CANCELLED_BY_USER_MSG p) (asked (Suc 0) p w)"
  from Cons.prems have hd: "shd (stdin w) = ''n''" by simp
  have "stl (sconst ''n'') = sconst ''n''" by simp
  with Cons.prems have st: "stl (stdin w) = stdin w" by (simp only:)
  have "stdin ?w = stl (stdin w)"
    by (simp add: print_def asked_def)
  with st Cons.prems have tl: "stdin ?w = sconst ''n''" by (simp only:)
  from st have same: "(refused (p # ps) w)\<lparr>stdin := stl (stdin w)\<rparr> = refused (p # ps) w"
    by (simp add: refused_def)
  from Cons.IH [OF tl] show ?case
    by (simp add: delete_candidate_no [OF hd] refused_Cons same)
qed

text \<open>
  Claim C7. When every line of the terminal is \<open>n\<close>, \<open>remove_duplicates_files\<close> with
  confirmation returns with the file system unchanged, having printed for each candidate the
  prompt and the refusal.
\<close>

theorem all_refused_keeps_files:
  assumes "stdin w = sconst ''n''"
  shows "\<exists>w'. remove_duplicates_files w gs True = Some (Inr w') \<and> files w' = files w \<and>
     stdout w' = stdout w @ concat (map (\<lambda>p. [DELETE_CONFIRMATION_MSG p, CANCELLED_BY_USER_MSG p])
                                      (concat (map tl gs)))"
proof -
  have "remove_duplicates_files w gs True = Some (Inr (refused (concat (map tl gs)) w))"
    unfolding remove_duplicates_files_candidates by (rule delete_each_refused [OF assms])
  then show ?thesis by (simp add: refused_def)
qed

theorem confirmation_loop_witness:
  "\<not> valid_reply (stdin prompt_world !! 0) \<and> \<not> valid_reply (stdin prompt_world !! 1) \<and>
   valid_reply (stdin prompt_world !! 2) \<and> stdin prompt_world !! 2 = ''y'' \<and>
   isfile (files prompt_world) [''d'', ''b.txt''] \<and>
   (\<exists>n. valid_reply (stdin prompt_world !! n)) \<and>
   (\<exists>r. delete_candidate prompt_world [''d'', ''b.txt''] True = Some r) \<and>
   delete_candidate prompt_world [''d'', ''b.txt''] True =
     Some (remove_file (asked 3 [''d'', ''b.txt''] prompt_world) [''d'', ''b.txt'']) \<and>
   (\<exists>w'. delete_candidate prompt_world [''d'', ''b.txt''] True = Some (Inr w') \<and>
      \<not> exists (files w') [''d'', ''b.txt''] \<and>
      stdout w' = [DELETE_CONFIRMATION_MSG [''d'', ''b.txt''],
                   DELETE_CONFIRMATION_MSG [''d'', ''b.txt''],
                   DELETE_CONFIRMATION_MSG [''d'', ''b.txt''],
                   SUCCESSFULLY_REMOVED_MSG [''d'', ''b.txt'']])"
proof -
  define b :: path where "b = [''d'', ''b.txt'']"
  have s0: "stdin prompt_world !! 0 = ''x''" and s1: "stdin prompt_world !! 1 = ''yes''"
    and s2: "stdin prompt_world !! 2 = ''y''"
    by (simp_all add: prompt_world_def numeral_2_eq_2)
  have b0: "\<not> valid_reply (stdin prompt_world !! 0)"
    and b1: "\<not> valid_reply (stdin prompt_world !! 1)"
    and g2: "valid_reply (stdin prompt_world !! 2)"
    unfolding s0 s1 s2 by (simp_all add: valid_reply_def)
  have bad: "\<forall>i<2. \<not> valid_reply (stdin prompt_world !! i)"
  proof (intro allI impI)
    fix i :: nat
    assume "i < 2"
    then have "i = 0 \<or> i = 1" by auto
    with b0 b1 show "\<not> valid_reply (stdin prompt_world !! i)" by auto
  qed
  have isf: "isfile (files prompt_world) b"
    by (simp add: b_def prompt_world_def example_fs_def isfile_def lookup_def)
  have out: "stdout prompt_world = []"
    by (simp add: prompt_world_def)
  from confirmation_loop [of prompt_world b]
  have iff: "(\<exists>r. delete_candidate prompt_world b True = Some r)
      \<longleftrightarrow> (\<exists>n. valid_reply (stdin prompt_world !! n))"
    and first: "\<forall>n. (\<forall>i<n. \<not> valid_reply (stdin prompt_world !! i))
        \<and> valid_reply (stdin prompt_world !! n) \<longrightarrow>
      delete_candidate prompt_world b True =
        Some (if stdin prompt_world !! n = ''y'' then remove_file (asked (Suc n) b prompt_world) b
              else Inr (print (CANCELLED_BY_USER_MSG b) (asked (Suc n) b prompt_world)))"
    and removes: "\<forall>n. (\<forall>i<n. \<not> valid_reply (stdin prompt_world !! i))
        \<and> stdin prompt_world !! n = ''y'' \<and> isfile (files prompt_world) b \<longrightarrow>
      (\<exists>w'. delete_candidate prompt_world b True = Some (Inr w') \<and>
         \<not> exists (files w') b \<and>
         (\<forall>q. q \<noteq> b \<longrightarrow> lookup (files w') q = lookup (files prompt_world) q) \<and>
         stdin w' = sdrop (Suc n) (stdin prompt_world) \<and>
         stdout w' = stdout prompt_world @ replicate (Suc n) (DELETE_CONFIRMATION_MSG b)
                       @ [SUCCESSFULLY_REMOVED_MSG b])"
    by blast+
  from g2 have ex: "\<exists>n. valid_reply (stdin prompt_world !! n)" ..
  with iff have ret: "\<exists>r. delete_candidate prompt_world b True = Some r" by blast
  from first bad g2
  have "delete_candidate prompt_world b True =
        Some (if stdin prompt_world !! 2 = ''y'' then remove_file (asked (Suc 2) b prompt_world) b
              else Inr (print (CANCELLED_BY_USER_MSG b) (asked (Suc 2) b prompt_world)))"
    by blast
  then have res: "delete_candidate prompt_world b True
      = Some (remove_file (asked 3 b prompt_world) b)"
    unfolding s2 by (simp add: eval_nat_numeral)
  from removes bad s2 isf
  obtain w' where run: "delete_candidate prompt_world b True = Some (Inr w')"
    and gone: "\<not> exists (files w') b"
    and printed: "stdout w' = stdout prompt_world @ replicate (Suc 2) (DELETE_CONFIRMATION_MSG b)
                       @ [SUCCESSFULLY_REMOVED_MSG b]"
    by blast
  from printed have "stdout w' = [DELETE_CONFIRMATION_MSG b, DELETE_CONFIRMATION_MSG b,
      DELETE_CONFIRMATION_MSG b, SUCCESSFULLY_REMOVED_MSG b]"
    by (simp add: out eval_nat_numeral)
  with run gone
  have outcome: "\<exists>w'. delete_candidate prompt_world b True = Some (Inr w') \<and>
      \<not> exists (files w') b \<and>
      stdout w' = [DELETE_CONFIRMATION_MSG b, DELETE_CONFIRMATION_MSG b,
                   DELETE_CONFIRMATION_MSG b, SUCCESSFULLY_REMOVED_MSG b]"
    by blast
  from b0 b1 g2 s2 isf ex ret res outcome
  have "\<not> valid_reply (stdin prompt_world !! 0) \<and> \<not> valid_reply (stdin prompt_world !! 1) \<and>
   valid_reply (stdin prompt_world !! 2) \<and> stdin prompt_world !! 2 = ''y'' \<and>
   isfile (files prompt_world) b \<and>
   (\<exists>n. valid_reply (stdin prompt_world !! n)) \<and>
   (\<exists>r. delete_candidate prompt_world b True = Some r) \<and>
   delete_candidate prompt_world b True = Some (remove_file (asked 3 b prompt_world) b) \<and>
   (\<exists>w'. delete_candidate prompt_world b True = Some (Inr w') \<and>
      \<not> exists (files w') b \<and>
      stdout w' = [DELETE_CONFIRMATION_MSG b, DELETE_CONFIRMATION_MSG b,
                   DELETE_CONFIRMATION_MSG b, SUCCESSFULLY_REMOVED_MSG b])"
    by (intro conjI)
  then show ?thesis unfolding b_def .
qed

theorem all_refused_keeps_files_witness:
  "stdin example_world = sconst ''n'' \<and>
   (\<exists>w'. remove_duplicates_files example_world example_groups True = Some (Inr w') \<and>
      files w' = files example_world \<and>
      stdout w' = [DELETE_CONFIRMATION_MSG [''d'', ''b.txt''],
                   CANCELLED_BY_USER_MSG [''d'', ''b.txt'']])"
proof -
  have s: "stdin example_world = sconst ''n''"
    by (simp add: example_world_def)
  from all_refused_keeps_files [OF s, of example_groups]
  obtain w' where run: "remove_duplicates_files example_world example_groups True = Some (Inr w')"
    and f: "files w' = files example_world"
    and out: "stdout w' = stdout example_world
       @ concat (map (\<lambda>p. [DELETE_CONFIRMATION_MSG p, CANCELLED_BY_USER_MSG p])
           (concat (map tl example_groups)))"
    by blast
  from out have "stdout w' = [DELETE_CONFIRMATION_MSG [''d'', ''b.txt''],
                   CANCELLED_BY_USER_MSG [''d'', ''b.txt'']]"
    by (simp add: example_world_def example_groups_def)
  with s run f show ?thesis by blast
qed

section \<open>Validation of the root and the walker\<close>

lemma isdir_exists: "isdir fs d \<Longrightarrow> exists fs d"
  by (auto simp: isdir_def exists_def split: option.splits)

lemma path_not_found_unreachable:
  "snd (valid_arguments fs directory) \<noteq> [ERROR_PATH_NOT_FOUND_MSG directory]"
  by (auto simp: valid_arguments_def isdir_exists)

lemma valid_arguments_missing:
  "directory \<noteq> [] \<Longrightarrow> \<not> exists fs directory \<Longrightarrow>
   valid_arguments fs directory = (False, [INVALID_DIRECTORY_MSG directory])"
  using isdir_exists [of fs directory] by (auto simp: valid_arguments_def)

text \<open>
  Claim C4, on the code. \<open>valid_arguments\<close> tests \<open>os.path.isdir\<close> before \<open>os.path.exists\<close>,
  and a path that does not exist is no directory: for a root that does not exist the script
  prints the message of a root that is a file, the same as for a root that is a regular file,
  and exits with status 1 before any scanning. The message of line 94 is never printed.
\<close>

theorem missing_directory_reported_as_file:
  "exists (files example_world) [''nowhere''] = False \<and>
   main (\<lambda>c. c) example_world [''nowhere''] False False False =
     Some (Exit 1, example_world\<lparr>stdout := [INVALID_DIRECTORY_MSG [''nowhere'']]\<rparr>) \<and>
   isfile (files example_world) [''d'', ''a.txt''] = True \<and>
   main (\<lambda>c. c) example_world [''d'', ''a.txt''] False False False =
     Some (Exit 1, example_world\<lparr>stdout := [INVALID_DIRECTORY_MSG [''d'', ''a.txt'']]\<rparr>)"
  by (simp add: main_def valid_arguments_def isdir_def isfile_def exists_def lookup_def prints_def
      example_world_def example_fs_def)

lemma get_files_empty:
  "scandir fs dir = Inr [] \<Longrightarrow> get_files directory fs dir recursive = Inr ([], [GETTING_FILES_MSG dir])"
  by (subst get_files.simps) (simp add: truth_value_def)

text \<open>
  Claim C5, on the code. For a directory without children \<open>get_files\<close> returns no entry and
  prints only that it is getting the files: the test of line 114 is on the iterator object,
  which is true, so the notice of line 115 is not printed; the script goes on to report that
  there are no duplicates.
\<close>

theorem empty_directory_no_notice:
  "scandir empty_dir_fs [''d''] = Inr [] \<and>
   get_files [''d''] empty_dir_fs [''d''] False = Inr ([], [GETTING_FILES_MSG [''d'']]) \<and>
   main (\<lambda>c. c) empty_dir_world [''d''] False False False =
     Some (Exit 0, empty_dir_world\<lparr>stdout :=
       [GETTING_FILES_MSG [''d''], NO_DUPLICATES_MSG, OPERATION_COMPLETED]\<rparr>)"
proof -
  have scan: "scandir empty_dir_fs [''d''] = Inr []"
    by (simp add: scandir_def empty_dir_fs_def lookup_def)
  have walk: "get_files [''d''] empty_dir_fs [''d''] False = Inr ([], [GETTING_FILES_MSG [''d'']])"
    by (rule get_files_empty [OF scan])
  have args: "valid_arguments empty_dir_fs [''d''] = (True, [])"
    by (simp add: valid_arguments_def isdir_def exists_def lookup_def empty_dir_fs_def)
  have "main (\<lambda>c. c) empty_dir_world [''d''] False False False =
     Some (Exit 0, empty_dir_world\<lparr>stdout :=
       [GETTING_FILES_MSG [''d''], NO_DUPLICATES_MSG, OPERATION_COMPLETED]\<rparr>)"
    by (simp add: main_def empty_dir_world_def args Let_def walk get_duplicates_def
        progressBar_def prints_def print_def)
  with scan walk show ?thesis by simp
qed

section \<open>Running the pipeline again\<close>

lemma remove_file_Inr:
  assumes "remove_file w p = Inr w'"
  shows "w' = deleted [p] w \<and> isfile (files w) p"
proof -
  from assms have f: "isfile (files w) p"
    by (auto simp: remove_file_def os_remove_def isfile_def split: option.splits node.splits)
  with assms show ?thesis by (simp add: remove_file_ok)
qed

lemma delete_each_Inr:
  "delete_each w ps False = Some (Inr w') \<Longrightarrow>
   w' = deleted ps w \<and> (\<forall>p\<in>set ps. isfile (files w) p)"
proof (induction ps arbitrary: w)
  case Nil
  then show ?case by (simp add: deleted_Nil)
next
  case (Cons p ps)
  from Cons.prems obtain w1 where one: "remove_file w p = Inr w1"
    and rest: "delete_each w1 ps False = Some (Inr w')"
    by (auto simp: delete_candidate_False split: sum.splits)
  from remove_file_Inr [OF one] have w1: "w1 = deleted [p] w" and p: "isfile (files w) p"
    by simp_all
  from Cons.IH [OF rest] have w': "w' = deleted ps w1" and ps: "\<forall>q\<in>set ps. isfile (files w1) q"
    by simp_all
  from w' w1 have "w' = deleted (p # ps) w" by (simp add: deleted_deleted)
  moreover from ps w1 have "\<forall>q\<in>set ps. isfile (files w) q"
    by (simp add: files_deleted isfile_removed)
  ultimately show ?case using p by simp
qed

lemma files_print: "files (print m w) = files w"
  by (simp add: print_def)

lemma files_prints: "files (prints ms w) = files w"
  by (simp add: prints_def)

lemma valid_arguments_True: "fst (valid_arguments fs d) \<Longrightarrow> isdir fs d"
  by (auto simp: valid_arguments_def split: if_splits)

lemma remove_duplicates_Inr:
  assumes "(if dups \<noteq> [] then remove_duplicates_files (print m w) dups False
            else Some (Inr (print m' w))) = Some (Inr w2)"
  shows "files w2 = removed (concat (map tl dups)) (files w)
       \<and> (\<forall>p\<in>set (concat (map tl dups)). isfile (files w) p)"
proof (cases "dups = []")
  case True
  with assms show ?thesis by (auto simp: files_print removed_Nil)
next
  case False
  with assms have "delete_each (print m w) (concat (map tl dups)) False = Some (Inr w2)"
    by (simp add: remove_duplicates_files_candidates)
  from delete_each_Inr [OF this] show ?thesis
    by (simp add: files_deleted files_print)
qed

lemma main_completed:
  assumes "main md5 w d r False True = Some (Exit 0, w')"
  shows "\<exists>entries out invalid dups.
     isdir (files w) d \<and> get_files d (files w) d r = Inr (entries, out) \<and>
     get_duplicates md5 (files w) entries = Inr (invalid, dups) \<and>
     (\<forall>p\<in>set (concat (map tl dups) @ invalid). isfile (files w) p) \<and>
     files w' = removed (concat (map tl dups) @ invalid) (files w)"
proof -
  obtain ok out0 where va: "valid_arguments (files w) d = (ok, out0)"
    by (cases "valid_arguments (files w) d")
  let ?w0 = "prints out0 w"
  from assms va have ok: ok
    by (auto simp: main_def Let_def split: if_splits)
  with va valid_arguments_True [of "files w" d] have dir: "isdir (files w) d" by simp
  from assms va ok obtain entries out1 where gf: "get_files d (files w) d r = Inr (entries, out1)"
    by (auto simp: main_def Let_def files_prints split: sum.splits)
  let ?w1 = "prints out1 ?w0"
  from assms va ok gf obtain invalid dups where
    gd: "get_duplicates md5 (files w) entries = Inr (invalid, dups)"
    by (auto simp: main_def Let_def files_prints split: sum.splits)
  from assms va ok gf gd obtain w2 where
    r1: "(if dups \<noteq> [] then remove_duplicates_files (print REMOVING_DUPLICATE_FILES_MSG ?w1)
              dups False
          else Some (Inr (print NO_DUPLICATES_MSG ?w1))) = Some (Inr w2)"
    by (auto simp: main_def Let_def files_prints split: sum.splits option.splits)
  from assms va ok gf gd r1 obtain w3 where
    r3: "remove_invalid_files (print REMOVING_INVALID_FILES_MSG w2) invalid False = Some (Inr w3)"
    and w': "w' = print OPERATION_COMPLETED w3"
    by (auto simp: main_def Let_def files_prints split: sum.splits option.splits)
  from remove_duplicates_Inr [OF r1]
  have f2: "files w2 = removed (concat (map tl dups)) (files w)"
    and c2: "\<forall>p\<in>set (concat (map tl dups)). isfile (files w) p"
    by (simp_all add: files_prints)
  from r3 have "delete_each (print REMOVING_INVALID_FILES_MSG w2) invalid False = Some (Inr w3)"
    by (simp add: remove_invalid_files_def progressBar_def)
  from delete_each_Inr [OF this]
  have f3: "files w3 = removed invalid (files w2)" and c3: "\<forall>p\<in>set invalid. isfile (files w2) p"
    by (simp_all add: files_deleted files_print)
  from f3 f2 w' have "files w' = removed (concat (map tl dups) @ invalid) (files w)"
    by (simp add: files_print removed_append)
  moreover from c3 f2 have "\<forall>p\<in>set invalid. isfile (files w) p"
    by (simp add: isfile_removed)
  ultimately show ?thesis using dir gf gd c2 by auto
qed

lemma path_entry_of: "path (entry_of (p, n)) = p"
  by (simp add: entry_of_def)

lemma scandir_Inr:
  "scandir fs d = Inr it \<Longrightarrow>
   isdir fs d \<and> it = map entry_of (filter (\<lambda>(p, n). p \<noteq> [] \<and> butlast p = d) fs)"
  by (auto simp: scandir_def isdir_def split: option.splits node.splits)

lemma scandir_isdir:
  "isdir fs d \<Longrightarrow>
   scandir fs d = Inr (map entry_of (filter (\<lambda>(p, n). p \<noteq> [] \<and> butlast p = d) fs))"
  by (auto simp: scandir_def isdir_def split: option.splits node.splits)

lemma isdir_removed: "isdir (removed D fs) q \<longleftrightarrow> q \<notin> set D \<and> isdir fs q"
  by (simp add: isdir_def lookup_removed)

lemma children_removed:
  "map entry_of (filter (\<lambda>(p, n). p \<noteq> [] \<and> butlast p = d) (removed D fs))
     = kept D (map entry_of (filter (\<lambda>(p, n). p \<noteq> [] \<and> butlast p = d) fs))"
  by (induction fs) (auto simp: removed_def kept_def path_entry_of)

lemma scandir_removed:
  assumes scan: "scandir fs d = Inr it" and nodirs: "\<forall>p\<in>set D. \<not> isdir fs p"
  shows "scandir (removed D fs) d = Inr (kept D it)"
proof -
  from scandir_Inr [OF scan] have dir: "isdir fs d"
    and it: "it = map entry_of (filter (\<lambda>(p, n). p \<noteq> [] \<and> butlast p = d) fs)"
    by simp_all
  from dir nodirs have "d \<notin> set D" by blast
  with dir have "isdir (removed D fs) d" by (simp add: isdir_removed)
  from scandir_isdir [OF this] show ?thesis
    by (simp add: children_removed it)
qed

lemma lookup_member:
  "distinct (map fst fs) \<Longrightarrow> (p, n) \<in> set fs \<Longrightarrow> p \<noteq> [] \<Longrightarrow> lookup fs p = Some n"
  by (simp add: lookup_def)

lemma scandir_entry:
  assumes wf: "distinct (map fst fs)" and scan: "scandir fs d = Inr it" and e: "e \<in> set it"
  shows "(is_file e \<longleftrightarrow> isfile fs (path e)) \<and> (is_dir e \<longleftrightarrow> isdir fs (path e))
       \<and> (is_file e \<or> is_dir e)"
proof -
  from scandir_Inr [OF scan] e obtain p n where pn: "(p, n) \<in> set fs" and p: "p \<noteq> []"
    and e': "e = entry_of (p, n)"
    by auto
  from lookup_member [OF wf pn p] have "lookup fs p = Some n" .
  with e' show ?thesis
    by (cases n) (simp_all add: entry_of_def is_file_def is_dir_def isfile_def isdir_def)
qed

lemma collect_Inr_Cons:
  "collect (r # rs) = Inr (es, out) \<longleftrightarrow>
     (\<exists>a m es' out'. r = Inr (a, m) \<and> collect rs = Inr (es', out') \<and> es = a @ es' \<and> out = m @ out')"
  by (auto split: sum.splits)

lemma collect_kept:
  assumes "\<forall>e\<in>set it. \<forall>a m. F e = Inr (a, m) \<longrightarrow>
      (if path e \<notin> set D then \<exists>m'. F' e = Inr (kept D a, m') else kept D a = [])"
  shows "collect (map F it) = Inr (es, out) \<Longrightarrow>
     \<exists>out'. collect (map F' (kept D it)) = Inr (kept D es, out')"
  using assms
proof (induction it arbitrary: es out)
  case Nil
  then show ?case by (simp add: kept_def)
next
  case (Cons e it)
  from Cons.prems(1) have "collect (F e # map F it) = Inr (es, out)"
    by (simp del: collect.simps)
  then obtain a m es' out' where Fe: "F e = Inr (a, m)"
    and rest: "collect (map F it) = Inr (es', out')" and es: "es = a @ es'"
    unfolding collect_Inr_Cons by blast
  from Cons.prems(2) have "\<forall>e\<in>set it. \<forall>a m. F e = Inr (a, m) \<longrightarrow>
      (if path e \<notin> set D then \<exists>m'. F' e = Inr (kept D a, m') else kept D a = [])"
    by simp
  from Cons.IH [OF rest this] obtain out2 where
    IH: "collect (map F' (kept D it)) = Inr (kept D es', out2)" by blast
  have split: "kept D es = kept D a @ kept D es'"
    by (simp add: es kept_def)
  show ?case
  proof (cases "path e \<in> set D")
    case True
    with Cons.prems(2) Fe have "kept D a = []" by auto
    with True IH split show ?thesis by (simp add: kept_def)
  next
    case False
    with Cons.prems(2) Fe obtain m' where "F' e = Inr (kept D a, m')" by fastforce
    with False IH split show ?thesis by (simp add: kept_def)
  qed
qed

lemma get_files_visit:
  "get_files directory fs dir recursive =
     (case scandir fs dir of
        Inl e \<Rightarrow> Inl e
      | Inr dir_entry \<Rightarrow>
          (case collect (map (visit directory fs recursive) dir_entry) of
             Inl e \<Rightarrow> Inl e
           | Inr (file_entries, out) \<Rightarrow>
               Inr (file_entries,
                    [GETTING_FILES_MSG dir]
                      @ (if \<not> truth_value dir_entry then [DIRECTORY_IS_EMPTY_MSG directory] else [])
                      @ out)))"
proof -
  have "visit directory fs recursive =
      (\<lambda>entry. if is_file entry then Inr ([entry], [])
        else if is_dir entry \<and> recursive then get_files directory fs (path entry) recursive
        else Inr ([], []))"
    by (rule ext) (simp add: visit_def)
  then show ?thesis
    by (simp only: get_files.simps [of directory fs dir recursive])
qed

lemma get_files_Inr:
  assumes "get_files g fs d r = Inr (es, out)"
  shows "\<exists>it out0. scandir fs d = Inr it \<and> collect (map (visit g fs r) it) = Inr (es, out0)"
  using assms by (subst (asm) get_files_visit) (auto split: sum.splits)

lemma get_files_collect:
  assumes "scandir fs d = Inr it" and "collect (map (visit g fs r) it) = Inr (es, out0)"
  shows "\<exists>out. get_files g fs d r = Inr (es, out)"
  using assms by (subst get_files_visit) simp

lemma collect_all:
  assumes "\<forall>e\<in>set it. \<forall>a m. F e = Inr (a, m) \<longrightarrow> (\<forall>x\<in>set a. Q x)"
  shows "collect (map F it) = Inr (es, out) \<Longrightarrow> \<forall>x\<in>set es. Q x"
  using assms
proof (induction it arbitrary: es out)
  case Nil
  then show ?case by simp
next
  case (Cons e it)
  from Cons.prems(1) have "collect (F e # map F it) = Inr (es, out)"
    by (simp del: collect.simps)
  then obtain a m es' out' where Fe: "F e = Inr (a, m)"
    and rest: "collect (map F it) = Inr (es', out')" and es: "es = a @ es'"
    unfolding collect_Inr_Cons by blast
  from Cons.prems(2) have "\<forall>e\<in>set it. \<forall>a m. F e = Inr (a, m) \<longrightarrow> (\<forall>x\<in>set a. Q x)"
    by simp
  from Cons.IH [OF rest this] have "\<forall>x\<in>set es'. Q x" .
  moreover from Cons.prems(2) Fe have "\<forall>x\<in>set a. Q x" by auto
  ultimately show ?case by (auto simp: es)
qed

lemma get_files_are_files:
  assumes wf: "distinct (map fst fs)"
  shows "get_files g fs d r = Inr (es, out) \<Longrightarrow> \<forall>e\<in>set es. isfile fs (path e)"
  using wf
proof (induction g fs d r arbitrary: es out rule: get_files.induct)
  case (1 g fs d r)
  from get_files_Inr [OF "1.prems"(1)] obtain it out0 where scan: "scandir fs d = Inr it"
    and coll: "collect (map (visit g fs r) it) = Inr (es, out0)"
    by blast
  have "\<forall>e\<in>set it. \<forall>a m. visit g fs r e = Inr (a, m) \<longrightarrow> (\<forall>x\<in>set a. isfile fs (path x))"
  proof (intro ballI allI impI)
    fix e a m x
    assume e: "e \<in> set it" and v: "visit g fs r e = Inr (a, m)" and x: "x \<in> set a"
    from scandir_entry [OF "1.prems"(2) scan e]
    have f: "is_file e \<longleftrightarrow> isfile fs (path e)" by blast
    show "isfile fs (path x)"
    proof (cases "is_file e")
      case True
      with v x f show ?thesis by (auto simp: visit_def)
    next
      case False
      show ?thesis
      proof (cases "is_dir e \<and> r")
        case True
        with False v have "get_files g fs (path e) r = Inr (a, m)" by (simp add: visit_def)
        from "1.IH" [OF scan e False True this "1.prems"(2)] x show ?thesis by blast
      next
        case no: False
        with False v x show ?thesis by (auto simp: visit_def)
      qed
    qed
  qed
  from collect_all [OF this coll] show ?case .
qed

lemma get_files_removed:
  assumes wf: "distinct (map fst fs)" and nodirs: "\<forall>p\<in>set D. \<not> isdir fs p"
  shows "get_files g fs d r = Inr (es, out) \<Longrightarrow>
     \<exists>out'. get_files g (removed D fs) d r = Inr (kept D es, out')"
  using wf nodirs
proof (induction g fs d r arbitrary: es out rule: get_files.induct)
  case (1 g fs d r)
  note wf = "1.prems"(2) and nodirs = "1.prems"(3)
  from get_files_Inr [OF "1.prems"(1)] obtain it out0 where scan: "scandir fs d = Inr it"
    and coll: "collect (map (visit g fs r) it) = Inr (es, out0)"
    by blast
  have scan': "scandir (removed D fs) d = Inr (kept D it)"
    by (rule scandir_removed [OF scan nodirs])
  have "\<forall>e\<in>set it. \<forall>a m. visit g fs r e = Inr (a, m) \<longrightarrow>
      (if path e \<notin> set D then \<exists>m'. visit g (removed D fs) r e = Inr (kept D a, m')
       else kept D a = [])"
  proof (intro ballI allI impI)
    fix e a m
    assume e: "e \<in> set it" and v: "visit g fs r e = Inr (a, m)"
    from scandir_entry [OF wf scan e]
    have d: "is_dir e \<longleftrightarrow> isdir fs (path e)" and fd: "is_file e \<or> is_dir e" by blast+
    show "if path e \<notin> set D then \<exists>m'. visit g (removed D fs) r e = Inr (kept D a, m')
       else kept D a = []"
    proof (cases "path e \<in> set D")
      case True
      with nodirs d have "\<not> is_dir e" by blast
      with fd have "is_file e" by simp
      with v have "a = [e]" by (simp add: visit_def)
      with True show ?thesis by (simp add: kept_def)
    next
      case notin: False
      show ?thesis
      proof (cases "is_file e")
        case True
        with v notin show ?thesis by (auto simp: visit_def kept_def)
      next
        case False
        show ?thesis
        proof (cases "is_dir e \<and> r")
          case True
          with False v have "get_files g fs (path e) r = Inr (a, m)" by (simp add: visit_def)
          from "1.IH" [OF scan e False True this wf nodirs]
          obtain m' where "get_files g (removed D fs) (path e) r = Inr (kept D a, m')" by blast
          with False True notin show ?thesis by (simp add: visit_def)
        next
          case no: False
          with False v notin show ?thesis by (auto simp: visit_def kept_def)
        qed
      qed
    qed
  qed
  from collect_kept [OF this coll] obtain out' where
    "collect (map (visit g (removed D fs) r) (kept D it)) = Inr (kept D es, out')" by blast
  from get_files_collect [OF scan' this] show ?case .
qed

lemma insort_key_agree:
  "f x = g x \<Longrightarrow> \<forall>y\<in>set ys. f y = g y \<Longrightarrow> insort_key f x ys = insort_key g x ys"
  by (induction ys) auto

lemma sort_key_agree: "\<forall>x\<in>set xs. f x = g x \<Longrightarrow> sort_key f xs = sort_key g xs"
proof (induction xs)
  case Nil
  show ?case by simp
next
  case (Cons x xs)
  then have "sort_key f xs = sort_key g xs" by simp
  moreover from Cons.prems have "insort_key f x (sort_key g xs) = insort_key g x (sort_key g xs)"
    by (intro insort_key_agree) simp_all
  ultimately show ?case by simp
qed

lemma file_content_removed: "p \<notin> set D \<Longrightarrow> file_content (removed D fs) p = file_content fs p"
  by (simp add: file_content_def lookup_removed)

lemma file_seconds_removed:
  "p \<notin> set D \<Longrightarrow> file_seconds (removed D fs) p = file_seconds fs p"
  by (simp add: file_seconds_def file_mtime_def lookup_removed)

lemma set_kept: "set (kept D es) = {e \<in> set es. path e \<notin> set D}"
  by (auto simp: kept_def)

lemma by_mtime_kept: "by_mtime (removed D fs) (kept D es) = kept D (by_mtime fs es)"
proof -
  have "sort_key (\<lambda>e. file_seconds (removed D fs) (path e)) (kept D es)
      = sort_key (\<lambda>e. file_seconds fs (path e)) (kept D es)"
    by (rule sort_key_agree) (simp add: set_kept file_seconds_removed)
  also have "\<dots> = kept D (sort_key (\<lambda>e. file_seconds fs (path e)) es)"
    by (simp add: kept_def filter_sort)
  finally show ?thesis by (simp add: by_mtime_def)
qed

lemma map_path_kept: "map path (kept D xs) = filter (\<lambda>p. p \<notin> set D) (map path xs)"
  by (induction xs) (simp_all add: kept_def)

lemma group_of_kept:
  "group_of k (hashed md5 (removed D fs) (kept D es))
     = filter (\<lambda>p. p \<notin> set D) (group_of k (hashed md5 fs es))"
proof -
  have same: "filter (\<lambda>e. md5 (file_content (removed D fs) (path e)) = k) (kept D (by_mtime fs es))
      = kept D (filter (\<lambda>e. md5 (file_content fs (path e)) = k) (by_mtime fs es))"
    unfolding kept_def filter_filter
    by (rule filter_cong) (auto simp: file_content_removed)
  have "group_of k (hashed md5 (removed D fs) (kept D es))
      = map path (filter (\<lambda>e. md5 (file_content (removed D fs) (path e)) = k)
          (kept D (by_mtime fs es)))"
    by (simp only: group_of_hashed by_mtime_kept)
  also have "\<dots> = filter (\<lambda>p. p \<notin> set D)
      (map path (filter (\<lambda>e. md5 (file_content fs (path e)) = k) (by_mtime fs es)))"
    by (simp only: same map_path_kept)
  finally show ?thesis by (simp only: group_of_hashed)
qed

lemma filter_tail_gone:
  assumes "\<forall>p\<in>set (tl g). \<not> P p"
  shows "length (filter P g) \<le> 1"
proof (cases g)
  case Nil
  then show ?thesis by simp
next
  case (Cons x xs)
  with assms have "filter P xs = []" by (simp add: filter_empty_conv)
  with Cons show ?thesis by simp
qed

lemma groups_of_kept_empty:
  assumes "set (concat (map tl (groups_of md5 fs es))) \<subseteq> set D"
  shows "groups_of md5 (removed D fs) (kept D es) = []"
proof -
  have "length (group_of k (hashed md5 (removed D fs) (kept D es))) \<le> 1" for k
  proof (cases "length (group_of k (hashed md5 fs es)) > 1")
    case True
    then have "group_of k (hashed md5 fs es) \<in> set (groups_of md5 fs es)"
      by (auto simp: mem_duplicates)
    then have "set (tl (group_of k (hashed md5 fs es))) \<subseteq> set (concat (map tl (groups_of md5 fs es)))"
      by auto
    with assms have "\<forall>p\<in>set (tl (group_of k (hashed md5 fs es))). \<not> p \<notin> set D"
      by blast
    from filter_tail_gone [OF this] show ?thesis
      by (simp add: group_of_kept)
  next
    case False
    from False have "length (group_of k (hashed md5 fs es)) \<le> 1" by simp
    from le_trans [OF length_filter_le this] show ?thesis
      by (simp only: group_of_kept)
  qed
  then have "\<forall>g. g \<notin> set (groups_of md5 (removed D fs) (kept D es))"
    by (auto simp: mem_duplicates simp del: One_nat_def) (metis not_less)
  then show ?thesis by (metis list.set_intros(1) neq_Nil_conv)
qed

lemma reclassify_kept:
  assumes files: "\<forall>e\<in>set es. isfile fs (path e)"
    and first: "get_duplicates md5 fs es = Inr (invalid, dups)"
    and D: "set (concat (map tl dups)) \<union> set invalid \<subseteq> set D"
  shows "get_duplicates md5 (removed D fs) (kept D es) = Inr ([], [])"
proof -
  from first get_duplicates_files [OF files, of md5]
  have invalid: "invalid = map path (filter (\<lambda>e. file_content fs (path e) = []) (by_mtime fs es))"
    and dups: "dups = groups_of md5 fs es"
    by simp_all
  have files': "\<forall>e\<in>set (kept D es). isfile (removed D fs) (path e)"
    using files by (simp add: set_kept isfile_removed)
  have "filter (\<lambda>e. file_content (removed D fs) (path e) = []) (kept D (by_mtime fs es)) = []"
  proof (simp only: filter_empty_conv, intro ballI notI)
    fix e
    assume e: "e \<in> set (kept D (by_mtime fs es))"
      and empty: "file_content (removed D fs) (path e) = []"
    from e have mem: "e \<in> set (by_mtime fs es)" and notin: "path e \<notin> set D"
      by (simp_all add: set_kept)
    from empty notin have "file_content fs (path e) = []"
      by (simp add: file_content_removed)
    with mem have "path e \<in> set invalid" by (simp add: invalid)
    with D notin show False by blast
  qed
  moreover from D dups have "groups_of md5 (removed D fs) (kept D es) = []"
    by (intro groups_of_kept_empty) simp
  ultimately show ?thesis
    by (simp add: get_duplicates_files [OF files'] by_mtime_kept)
qed

text \<open>
  Claim C9. Let no path be listed twice in the file system, and let the script, run without
  confirmation and with the deletion of invalid files, reach its last line. Then walking the
  same root again in the file system it leaves succeeds, and the classifier finds neither an
  invalid file nor a duplicate group among the entries.
\<close>

theorem pipeline_idempotent:
  assumes wf: "distinct (map fst (files w))"
    and run: "main md5 w directory recursive False True = Some (Exit 0, w')"
  shows "\<exists>entries out.
     get_files directory (files w') directory recursive = Inr (entries, out) \<and>
     get_duplicates md5 (files w') entries = Inr ([], [])"
proof -
  from main_completed [OF run] obtain entries out invalid dups where
    walk: "get_files directory (files w) directory recursive = Inr (entries, out)"
    and cls: "get_duplicates md5 (files w) entries = Inr (invalid, dups)"
    and gone: "\<forall>p\<in>set (concat (map tl dups) @ invalid). isfile (files w) p"
    and w': "files w' = removed (concat (map tl dups) @ invalid) (files w)"
    by blast
  let ?D = "concat (map tl dups) @ invalid"
  from gone have nodirs: "\<forall>p\<in>set ?D. \<not> isdir (files w) p"
    by (auto simp: isfile_def isdir_def split: option.splits node.splits)
  from get_files_removed [OF wf nodirs walk] obtain out' where
    walk': "get_files directory (removed ?D (files w)) directory recursive
              = Inr (kept ?D entries, out')"
    by blast
  from get_files_are_files [OF wf walk] have files: "\<forall>e\<in>set entries. isfile (files w) (path e)" .
  have "get_duplicates md5 (removed ?D (files w)) (kept ?D entries) = Inr ([], [])"
    by (rule reclassify_kept [OF files cls]) simp
  with walk' show ?thesis unfolding w' by blast
qed

lemma example_walk:
  "get_files [''d''] example_fs [''d''] False = Inr (example_entries, [GETTING_FILES_MSG [''d'']])"
  by (subst get_files.simps)
    (simp add: scandir_def example_fs_def lookup_def entry_of_def is_file_def is_dir_def
      truth_value_def example_entries_def)

lemma example_classes:
  "get_duplicates (\<lambda>c. c) example_fs example_entries
     = Inr ([[''d'', ''empty.bin'']], [[[''d'', ''a.txt''], [''d'', ''b.txt'']]])"
  by (simp add: get_duplicates_def example_entries_def example_fs_def mtime_key_def stat_def seconds_def
      lookup_def valid_file_def get_hash_def read_file_def progressBar_def)

lemma example_run:
  "main (\<lambda>c. c) example_world [''d''] False False True = Some (Exit 0, cleaned_world)"
proof -
  have args: "valid_arguments example_fs [''d''] = (True, [])"
    by (simp add: valid_arguments_def isdir_def exists_def lookup_def example_fs_def)
  have dups: "remove_duplicates_files
       \<lparr>files = example_fs, stdin = sconst ''n'',
          stdout = [GETTING_FILES_MSG [''d''], REMOVING_DUPLICATE_FILES_MSG]\<rparr>
       [[[''d'', ''a.txt''], [''d'', ''b.txt'']]] False
     = Some (Inr \<lparr>files = removed [[''d'', ''b.txt'']] example_fs, stdin = sconst ''n'',
          stdout = [GETTING_FILES_MSG [''d''], REMOVING_DUPLICATE_FILES_MSG,
                    SUCCESSFULLY_REMOVED_MSG [''d'', ''b.txt'']]\<rparr>)"
    by (simp add: remove_duplicates_files_def progressBar_def delete_candidate_def remove_file_def
        os_remove_def lookup_def print_def example_fs_def removed_def)
  have invs: "remove_invalid_files
       \<lparr>files = removed [[''d'', ''b.txt'']] example_fs, stdin = sconst ''n'',
          stdout = [GETTING_FILES_MSG [''d''], REMOVING_DUPLICATE_FILES_MSG,
                    SUCCESSFULLY_REMOVED_MSG [''d'', ''b.txt''], REMOVING_INVALID_FILES_MSG]\<rparr>
       [[''d'', ''empty.bin'']] False
     = Some (Inr \<lparr>files = [([''d''], Dir 4096 0), ([''d'', ''a.txt''], File ''hi'' 1000000000),
                            ([''d'', ''c.txt''], File ''bye'' 3000000000)],
          stdin = sconst ''n'',
          stdout = [GETTING_FILES_MSG [''d''], REMOVING_DUPLICATE_FILES_MSG,
                    SUCCESSFULLY_REMOVED_MSG [''d'', ''b.txt''], REMOVING_INVALID_FILES_MSG,
                    SUCCESSFULLY_REMOVED_MSG [''d'', ''empty.bin'']]\<rparr>)"
    by (simp add: remove_invalid_files_def progressBar_def delete_candidate_def remove_file_def
        os_remove_def lookup_def print_def example_fs_def removed_def)
  show ?thesis
    by (simp add: main_def example_world_def args Let_def prints_def print_def example_walk
        example_classes dups invs cleaned_world_def)
qed

theorem pipeline_idempotent_witness:
  "distinct (map fst (files example_world)) \<and>
   main (\<lambda>c. c) example_world [''d''] False False True = Some (Exit 0, cleaned_world) \<and>
   (\<exists>entries out.
      get_files [''d''] (files cleaned_world) [''d''] False = Inr (entries, out) \<and>
      get_duplicates (\<lambda>c. c) (files cleaned_world) entries = Inr ([], []))"
proof -
  have wf: "distinct (map fst (files example_world))"
    by (simp add: example_world_def example_fs_def)
  from pipeline_idempotent [OF wf example_run] wf example_run show ?thesis
    by (intro conjI)
qed

text \<open>
  Not every run reaches its last line: with two empty files the second is removed as a
  duplicate of the first, and \<open>remove_invalid_files\<close> then asks \<open>os.remove\<close> for it again.
\<close>

lemma empties_walk:
  "get_files [''d''] empties_fs [''d''] False = Inr (empties_entries, [GETTING_FILES_MSG [''d'']])"
  by (subst get_files.simps)
    (simp add: scandir_def empties_fs_def lookup_def entry_of_def is_file_def is_dir_def
      truth_value_def empties_entries_def)

lemma empties_classes:
  "get_duplicates (\<lambda>c. c) empties_fs empties_entries
     = Inr ([[''d'', ''e2''], [''d'', ''e1'']], [[[''d'', ''e2''], [''d'', ''e1'']]])"
  by (simp add: get_duplicates_def empties_entries_def empties_fs_def mtime_key_def stat_def seconds_def
      lookup_def valid_file_def get_hash_def read_file_def progressBar_def)

lemma two_empty_files_abort:
  "main (\<lambda>c. c) empties_world [''d''] False False True =
     Some (Uncaught (FileNotFoundError [''d'', ''e1'']),
       \<lparr>files = [([''d''], Dir 4096 0), ([''d'', ''a.txt''], File ''hi'' 1000000000)],
        stdin = sconst ''n'',
        stdout =
          [GETTING_FILES_MSG [''d''],
           REMOVING_DUPLICATE_FILES_MSG,
           SUCCESSFULLY_REMOVED_MSG [''d'', ''e1''],
           REMOVING_INVALID_FILES_MSG,
           SUCCESSFULLY_REMOVED_MSG [''d'', ''e2'']]\<rparr>)"
proof -
  have args: "valid_arguments empties_fs [''d''] = (True, [])"
    by (simp add: valid_arguments_def isdir_def exists_def lookup_def empties_fs_def)
  have dups: "remove_duplicates_files
       \<lparr>files = empties_fs, stdin = sconst ''n'',
          stdout = [GETTING_FILES_MSG [''d''], REMOVING_DUPLICATE_FILES_MSG]\<rparr>
       [[[''d'', ''e2''], [''d'', ''e1'']]] False
     = Some (Inr \<lparr>files = removed [[''d'', ''e1'']] empties_fs, stdin = sconst ''n'',
          stdout = [GETTING_FILES_MSG [''d''], REMOVING_DUPLICATE_FILES_MSG,
                    SUCCESSFULLY_REMOVED_MSG [''d'', ''e1'']]\<rparr>)"
    by (simp add: remove_duplicates_files_def progressBar_def delete_candidate_def remove_file_def
        os_remove_def lookup_def print_def empties_fs_def removed_def)
  have invs: "remove_invalid_files
       \<lparr>files = removed [[''d'', ''e1'']] empties_fs, stdin = sconst ''n'',
          stdout = [GETTING_FILES_MSG [''d''], REMOVING_DUPLICATE_FILES_MSG,
                    SUCCESSFULLY_REMOVED_MSG [''d'', ''e1''], REMOVING_INVALID_FILES_MSG]\<rparr>
       [[''d'', ''e2''], [''d'', ''e1'']] False
     = Some (Inl (FileNotFoundError [''d'', ''e1''],
         \<lparr>files = [([''d''], Dir 4096 0), ([''d'', ''a.txt''], File ''hi'' 1000000000)],
          stdin = sconst ''n'',
          stdout = [GETTING_FILES_MSG [''d''], REMOVING_DUPLICATE_FILES_MSG,
                    SUCCESSFULLY_REMOVED_MSG [''d'', ''e1''], REMOVING_INVALID_FILES_MSG,
                    SUCCESSFULLY_REMOVED_MSG [''d'', ''e2'']]\<rparr>))"
    by (simp add: remove_invalid_files_def progressBar_def delete_candidate_def remove_file_def
        os_remove_def lookup_def print_def empties_fs_def removed_def)
  show ?thesis
    by (simp add: main_def empties_world_def args Let_def prints_def print_def empties_walk
        empties_classes dups invs)
qed

section \<open>A deletion that fails\<close>

text \<open>
  Claim C3, as the code has it. Let the candidates before a path have been treated without
  an exception, and let \<open>os.remove\<close> fail on that path when the executor calls it: at once
  without confirmation, after the affirmative reply with confirmation. Then the exception ends
  \<open>remove_duplicates_files\<close> there, in either mode: the run returns that error, in a state
  whose file system is the one the earlier candidates left; nothing but the prompts has been
  printed for the failing path and the candidates after it are not treated. Without
  confirmation the earlier candidates are exactly the paths that are gone and reported.
\<close>

theorem deletion_failure_aborts:
  assumes cands: "concat (map tl gs) = pre @ p # post"
    and before: "delete_each w pre prompt_flag = Some (Inr w1)"
    and fails: "os_remove (files w1) p = Inl e"
    and reply: "prompt_flag \<longrightarrow> (\<forall>i<n. \<not> valid_reply (stdin w1 !! i)) \<and> stdin w1 !! n = ''y''"
  shows "\<exists>w2. remove_duplicates_files w gs prompt_flag = Some (Inl (e, w2)) \<and>
     files w2 = files w1 \<and>
     stdout w2 = stdout w1
       @ (if prompt_flag then replicate (Suc n) (DELETE_CONFIRMATION_MSG p) else []) \<and>
     (\<not> prompt_flag \<longrightarrow>
        files w1 = removed pre (files w) \<and>
        stdout w1 = stdout w @ map SUCCESSFULLY_REMOVED_MSG pre)"
proof (cases prompt_flag)
  case False
  from before False have "delete_each w pre False = Some (Inr w1)" by simp
  from delete_each_Inr [OF this] have w1: "w1 = deleted pre w" by simp
  have "remove_file w1 p = Inl (e, w1)"
    by (rule remove_file_fails [OF fails])
  with before False
  have "remove_duplicates_files w gs prompt_flag = Some (Inl (e, w1))"
    unfolding remove_duplicates_files_candidates cands
    by (simp add: delete_each_append delete_candidate_False)
  moreover from w1 have "files w1 = removed pre (files w)"
    and "stdout w1 = stdout w @ map SUCCESSFULLY_REMOVED_MSG pre"
    by (simp_all add: deleted_def)
  ultimately show ?thesis using False by simp
next
  case True
  with reply have bad: "\<forall>i<n. \<not> valid_reply (stdin w1 !! i)" and yes: "stdin w1 !! n = ''y''"
    by simp_all
  from confirmed_raises [OF bad yes fails]
  have "delete_candidate w1 p True = Some (Inl (e, asked (Suc n) p w1))" .
  with before True
  have "remove_duplicates_files w gs prompt_flag = Some (Inl (e, asked (Suc n) p w1))"
    unfolding remove_duplicates_files_candidates cands
    by (simp add: delete_each_append)
  moreover have "files (asked (Suc n) p w1) = files w1"
    by (simp add: files_asked)
  moreover have "stdout (asked (Suc n) p w1)
      = stdout w1 @ replicate (Suc n) (DELETE_CONFIRMATION_MSG p)"
    by (simp add: asked_def)
  ultimately show ?thesis using True by simp
qed

lemma vanished_first_confirmed:
  "delete_each vanished_prompt_world [[''d'', ''b.txt'']] True = Some (Inr vanished_prompt_after)"
  by (simp add: delete_candidate_True reply_loop_valid valid_reply_def vanished_prompt_world_def
      vanished_prompt_after_def asked_def remove_file_def os_remove_def lookup_def print_def)

theorem deletion_failure_aborts_witness:
  "concat (map tl vanished_groups) = [[''d'', ''b.txt'']] @ [''d'', ''v.txt''] # [[''d'', ''c.txt'']] \<and>
   delete_each vanished_prompt_world [[''d'', ''b.txt'']] True = Some (Inr vanished_prompt_after) \<and>
   os_remove (files vanished_prompt_after) [''d'', ''v.txt'']
     = Inl (FileNotFoundError [''d'', ''v.txt'']) \<and>
   stdin vanished_prompt_after !! 0 = ''y'' \<and>
   (\<exists>w2. remove_duplicates_files vanished_prompt_world vanished_groups True
            = Some (Inl (FileNotFoundError [''d'', ''v.txt''], w2)) \<and>
      isfile (files w2) [''d'', ''c.txt''] \<and>
      stdout w2 = [DELETE_CONFIRMATION_MSG [''d'', ''b.txt''],
                   SUCCESSFULLY_REMOVED_MSG [''d'', ''b.txt''],
                   DELETE_CONFIRMATION_MSG [''d'', ''v.txt'']]) \<and>
   delete_each vanished_world [[''d'', ''b.txt'']] False
     = Some (Inr (deleted [[''d'', ''b.txt'']] vanished_world)) \<and>
   os_remove (files (deleted [[''d'', ''b.txt'']] vanished_world)) [''d'', ''v.txt'']
     = Inl (FileNotFoundError [''d'', ''v.txt'']) \<and>
   (\<exists>w2. remove_duplicates_files vanished_world vanished_groups False
            = Some (Inl (FileNotFoundError [''d'', ''v.txt''], w2)) \<and>
      isfile (files w2) [''d'', ''c.txt''] \<and>
      stdout w2 = [SUCCESSFULLY_REMOVED_MSG [''d'', ''b.txt'']])"
proof -
  define b :: path where "b = [''d'', ''b.txt'']"
  define v :: path where "v = [''d'', ''v.txt'']"
  define c :: path where "c = [''d'', ''c.txt'']"
  have cands: "concat (map tl vanished_groups) = [b] @ v # [c]"
    by (simp add: vanished_groups_def b_def v_def c_def)
  have before: "delete_each vanished_prompt_world [b] True = Some (Inr vanished_prompt_after)"
    unfolding b_def by (rule vanished_first_confirmed)
  have fails: "os_remove (files vanished_prompt_after) v = Inl (FileNotFoundError v)"
    by (simp add: v_def vanished_prompt_after_def os_remove_def lookup_def)
  have yes: "stdin vanished_prompt_after !! 0 = ''y''"
    by (simp add: vanished_prompt_after_def)
  then have reply: "True \<longrightarrow> (\<forall>i<0. \<not> valid_reply (stdin vanished_prompt_after !! i))
      \<and> stdin vanished_prompt_after !! 0 = ''y''"
    by simp
  have c: "isfile (files vanished_prompt_after) c"
    by (simp add: c_def vanished_prompt_after_def isfile_def lookup_def)
  have out: "stdout vanished_prompt_after
      = [DELETE_CONFIRMATION_MSG b, SUCCESSFULLY_REMOVED_MSG b]"
    by (simp add: b_def vanished_prompt_after_def)
  from deletion_failure_aborts [OF cands before fails reply]
  obtain w2 where run: "remove_duplicates_files vanished_prompt_world vanished_groups True
        = Some (Inl (FileNotFoundError v, w2))"
    and f2: "files w2 = files vanished_prompt_after"
    and o2: "stdout w2 = stdout vanished_prompt_after
        @ (if True then replicate (Suc 0) (DELETE_CONFIRMATION_MSG v) else [])"
    by blast
  from o2 out have "stdout w2 = [DELETE_CONFIRMATION_MSG b, SUCCESSFULLY_REMOVED_MSG b,
      DELETE_CONFIRMATION_MSG v]"
    by simp
  with run f2 c
  have "\<exists>w2. remove_duplicates_files vanished_prompt_world vanished_groups True
            = Some (Inl (FileNotFoundError v, w2)) \<and>
      isfile (files w2) c \<and>
      stdout w2 = [DELETE_CONFIRMATION_MSG b, SUCCESSFULLY_REMOVED_MSG b,
                   DELETE_CONFIRMATION_MSG v]"
    by auto
  note prompted = this
  have before0: "delete_each vanished_world [b] False = Some (Inr (deleted [b] vanished_world))"
    by (rule delete_each_ok) (simp_all add: b_def vanished_world_def isfile_def lookup_def)
  have fails0: "os_remove (files (deleted [b] vanished_world)) v = Inl (FileNotFoundError v)"
    by (simp add: b_def v_def vanished_world_def deleted_def removed_def os_remove_def lookup_def)
  have reply0: "False \<longrightarrow> (\<forall>i<0. \<not> valid_reply (stdin (deleted [b] vanished_world) !! i))
      \<and> stdin (deleted [b] vanished_world) !! 0 = ''y''"
    by simp
  have c0: "isfile (files (deleted [b] vanished_world)) c"
    by (simp add: b_def c_def vanished_world_def deleted_def removed_def isfile_def lookup_def)
  have out0: "stdout (deleted [b] vanished_world) = [SUCCESSFULLY_REMOVED_MSG b]"
    by (simp add: vanished_world_def deleted_def)
  from deletion_failure_aborts [OF cands before0 fails0 reply0]
  obtain w3 where run0: "remove_duplicates_files vanished_world vanished_groups False
        = Some (Inl (FileNotFoundError v, w3))"
    and f3: "files w3 = files (deleted [b] vanished_world)"
    and o3: "stdout w3 = stdout (deleted [b] vanished_world)
        @ (if False then replicate (Suc 0) (DELETE_CONFIRMATION_MSG v) else [])"
    by blast
  from o3 out0 have "stdout w3 = [SUCCESSFULLY_REMOVED_MSG b]" by simp
  with run0 f3 c0
  have plain: "\<exists>w2. remove_duplicates_files vanished_world vanished_groups False
            = Some (Inl (FileNotFoundError v, w2)) \<and>
      isfile (files w2) c \<and> stdout w2 = [SUCCESSFULLY_REMOVED_MSG b]"
    by auto
  from cands before fails yes prompted before0 fails0 plain
  have "concat (map tl vanished_groups) = [b] @ v # [c] \<and>
   delete_each vanished_prompt_world [b] True = Some (Inr vanished_prompt_after) \<and>
   os_remove (files vanished_prompt_after) v = Inl (FileNotFoundError v) \<and>
   stdin vanished_prompt_after !! 0 = ''y'' \<and>
   (\<exists>w2. remove_duplicates_files vanished_prompt_world vanished_groups True
            = Some (Inl (FileNotFoundError v, w2)) \<and>
      isfile (files w2) c \<and>
      stdout w2 = [DELETE_CONFIRMATION_MSG b, SUCCESSFULLY_REMOVED_MSG b,
                   DELETE_CONFIRMATION_MSG v]) \<and>
   delete_each vanished_world [b] False = Some (Inr (deleted [b] vanished_world)) \<and>
   os_remove (files (deleted [b] vanished_world)) v = Inl (FileNotFoundError v) \<and>
   (\<exists>w2. remove_duplicates_files vanished_world vanished_groups False
            = Some (Inl (FileNotFoundError v, w2)) \<and>
      isfile (files w2) c \<and> stdout w2 = [SUCCESSFULLY_REMOVED_MSG b])"
    by (intro conjI)
  then show ?thesis unfolding b_def v_def c_def .
qed

end
